theory Spec2Isabelle
  imports Main
begin

section \<open>Voice transcription service: the cancellable capture pipeline\<close>

text \<open>
  The development embeds \<^verbatim>\<open>workbenchVoiceRecognitionService.ts\<close>: the class
  \<^verbatim>\<open>WorkbenchVoiceRecognitionService\<close> (\<^verbatim>\<open>transcribe\<close>, \<^verbatim>\<open>doTranscribe\<close>) and the
  class \<^verbatim>\<open>VoiceTranscriptionWorkletNode\<close> (\<^verbatim>\<open>registerListeners\<close>, \<^verbatim>\<open>start\<close>).

  The code is asynchronous and single threaded. One call of \<^verbatim>\<open>transcribe\<close> is a
  \<^emph>\<open>session\<close>: the local variables of its closures. The body of the async callback of
  \<^verbatim>\<open>doTranscribe\<close> runs from one \<^verbatim>\<open>await\<close> to the next without interruption, so the
  model has one function per segment of the body, and the environment chooses the order
  of the events: calls of \<^verbatim>\<open>transcribe\<close>, cancellation of a token, the settling of each
  awaited promise, messages on the port of the worklet node, and timers.
  Every effect of a session on the browser objects it owns is appended to the session's
  list of effects, in program order. The objects a session creates or is handed (its
  emitter, microphone stream, audio context, worklet node, side-channel connection) have
  identities, drawn from one allocator for the whole renderer process.

  Calls into the browser are taken not to throw synchronously, with one exception that
  is modelled: the synchronous part of the async callback, up to its first \<^verbatim>\<open>await\<close>,
  may throw (for instance when \<^verbatim>\<open>navigator.mediaDevices\<close> is missing).
\<close>

subsection \<open>Values and effects\<close>

type_synonym sid = nat  \<comment> \<open>a call of \<^verbatim>\<open>transcribe\<close>\<close>
type_synonym tid = nat  \<comment> \<open>a \<^verbatim>\<open>CancellationToken\<close> object\<close>
type_synonym track = nat  \<comment> \<open>a \<^verbatim>\<open>MediaStreamTrack\<close> of the microphone stream\<close>
type_synonym obj = nat  \<comment> \<open>the identity of an object\<close>

text \<open>The payload \<^verbatim>\<open>e.data\<close> of a message event, by its \<^verbatim>\<open>typeof\<close>.\<close>

datatype jsvalue =
    JString string
  | JNumber int
  | JBoolean bool
  | JUndefined
  | JObject

text \<open>The reason of a rejected promise.\<close>

datatype error = NotAllowedError | NotFoundError | OtherError string

datatype effect =
    Report string  \<comment> \<open>\<^verbatim>\<open>progress.report\<close>\<close>
  | GetUserMedia  \<comment> \<open>\<^verbatim>\<open>navigator.mediaDevices.getUserMedia\<close>\<close>
  | NewAudioContext
  | CreateMediaStreamSource
  | AddModule  \<comment> \<open>\<^verbatim>\<open>audioContext.audioWorklet.addModule\<close>\<close>
  | NewWorkletNode  \<comment> \<open>\<^verbatim>\<open>new VoiceTranscriptionWorkletNode\<close>\<close>
  | CreateRawConnection  \<comment> \<open>\<^verbatim>\<open>sharedProcessService.createRawConnection\<close>\<close>
  | PostStart  \<comment> \<open>\<^verbatim>\<open>port.postMessage('vscode:startVoiceTranscription', [connection])\<close>\<close>
  | PostStop  \<comment> \<open>\<^verbatim>\<open>port.postMessage('vscode:stopVoiceTranscription')\<close>\<close>
  | DisconnectNode  \<comment> \<open>\<^verbatim>\<open>this.disconnect()\<close> of the worklet node\<close>
  | ConnectSource  \<comment> \<open>\<^verbatim>\<open>microphoneSource.connect(voiceTranscriptionTarget)\<close>\<close>
  | StopTrack track  \<comment> \<open>\<^verbatim>\<open>track.stop()\<close>\<close>
  | DisconnectSource  \<comment> \<open>\<^verbatim>\<open>microphoneSource.disconnect()\<close>\<close>
  | CloseContext  \<comment> \<open>\<^verbatim>\<open>audioContext.close()\<close>\<close>
  | CompleteRecordingDone  \<comment> \<open>\<^verbatim>\<open>recordingDone.complete()\<close>\<close>

text \<open>
  Where the async callback of \<^verbatim>\<open>doTranscribe\<close> stands: not yet called, suspended at
  one of its four \<^verbatim>\<open>await\<close>s (\<^verbatim>\<open>getUserMedia\<close>, \<^verbatim>\<open>addModule\<close>,
  \<^verbatim>\<open>createRawConnection\<close> inside \<^verbatim>\<open>start\<close>, and \<^verbatim>\<open>start\<close> itself), returned
  \<^verbatim>\<open>recordingDone.p\<close>, returned early, or rejected.
\<close>

datatype pc =
    Idle
  | AwaitMic
  | AwaitModule
  | AwaitConn
  | AwaitStart
  | Recording
  | Returned
  | Rejected error

text \<open>The three closures the code hands to \<^verbatim>\<open>onCancellationRequested\<close>.\<close>

datatype listener =
    DisposeEmitter  \<comment> \<open>line 84: \<^verbatim>\<open>() => onDidTranscribe.dispose()\<close>\<close>
  | Teardown  \<comment> \<open>lines 121 to 129\<close>
  | StopWorklet  \<comment> \<open>lines 55 to 58\<close>

record session =
  token :: tid  \<comment> \<open>the \<^verbatim>\<open>cancellation\<close> argument\<close>
  disposed :: bool  \<comment> \<open>\<^verbatim>\<open>onDidTranscribe\<close> has been disposed\<close>
  delivered :: "string list"  \<comment> \<open>what a subscriber of \<^verbatim>\<open>onDidTranscribe.event\<close> has received\<close>
  pc :: pc
  microphoneDevice :: "track list"  \<comment> \<open>\<^verbatim>\<open>microphoneDevice.getTracks()\<close>\<close>
  recordingDone :: bool  \<comment> \<open>the deferred promise \<^verbatim>\<open>recordingDone\<close> is completed\<close>
  node :: bool  \<comment> \<open>the worklet node exists and listens on its port\<close>
  effects :: "effect list"
  onDidTranscribe :: obj  \<comment> \<open>the emitter of line 83\<close>
  microphoneStream :: "obj option"  \<comment> \<open>the stream \<^verbatim>\<open>getUserMedia\<close> resolved with (line 100)\<close>
  audioContext :: "obj option"  \<comment> \<open>the context of line 114\<close>
  voiceTranscriptionTarget :: "obj option"  \<comment> \<open>the worklet node of line 137\<close>
  sharedProcessConnection :: "obj option"  \<comment> \<open>the connection of line 53\<close>

text \<open>
  Modelled from the spec: the cancellation handle (\<^verbatim>\<open>vs/base/common/cancellation\<close> is not
  among the sources). It is a signal with one transition, from not cancelled to
  cancelled, and a registered listener fires at most once. On the listener that is
  registered when the handle is already cancelled the spec is silent: the model puts it on
  the timer queue, and it runs if and when the environment lets that timer fire, so a
  statement over all event sequences covers a handle that calls such a listener later and
  one that never does.
\<close>

record cancellation_token =
  isCancellationRequested :: bool
  listeners :: "(sid \<times> listener) list"

record world =
  tokens :: "tid \<Rightarrow> cancellation_token"
  sessions :: "sid \<rightharpoonup> session"
  next_sid :: sid
  timers :: "(sid \<times> listener) list"
  next_obj :: obj  \<comment> \<open>the identities below it are in use\<close>

definition fresh_token :: cancellation_token where
  "fresh_token = \<lparr>isCancellationRequested = False, listeners = []\<rparr>"

definition init :: world where
  "init = \<lparr>tokens = (\<lambda>_. fresh_token), sessions = Map.empty, next_sid = 0, timers = [],
     next_obj = 0\<rparr>"

definition cancelled :: "world \<Rightarrow> tid \<Rightarrow> bool" where
  "cancelled w t = isCancellationRequested (tokens w t)"

definition onCancellationRequested :: "tid \<Rightarrow> sid \<times> listener \<Rightarrow> world \<Rightarrow> world" where
  "onCancellationRequested t l w =
     (if cancelled w t then w\<lparr>timers := timers w @ [l]\<rparr>
      else w\<lparr>tokens := (tokens w)(t := (tokens w t)\<lparr>listeners := listeners (tokens w t) @ [l]\<rparr>)\<rparr>)"

subsection \<open>The emitter and the worklet node\<close>

text \<open>
  Modelled from the spec: the emitter \<^verbatim>\<open>onDidTranscribe\<close> (\<^verbatim>\<open>vs/base/common/event\<close> is
  not among the sources): a disposed emitter has released its subscribers, so firing it
  delivers nothing.
\<close>

definition fire :: "string \<Rightarrow> session \<Rightarrow> session" where
  "fire x s = (if disposed s then s else s\<lparr>delivered := delivered s @ [x]\<rparr>)"

text \<open>\<^verbatim>\<open>registerListeners\<close>: the handler installed as \<^verbatim>\<open>port.onmessage\<close>.\<close>

fun onmessage :: "jsvalue \<Rightarrow> session \<Rightarrow> session" where
  "onmessage (JString x) s = fire x s"
| "onmessage _ s = s"

subsection \<open>The listeners\<close>

definition teardown_effects :: "track list \<Rightarrow> effect list" where
  "teardown_effects trs = map StopTrack trs @ [DisconnectSource, CloseContext, CompleteRecordingDone]"

fun run_listener :: "listener \<Rightarrow> session \<Rightarrow> session" where
  "run_listener DisposeEmitter s = s\<lparr>disposed := True\<rparr>"
| "run_listener Teardown s =
     s\<lparr>effects := effects s @ teardown_effects (microphoneDevice s), recordingDone := True\<rparr>"
| "run_listener StopWorklet s = s\<lparr>effects := effects s @ [PostStop, DisconnectNode]\<rparr>"

definition upd :: "sid \<Rightarrow> (session \<Rightarrow> session) \<Rightarrow> world \<Rightarrow> world" where
  "upd i f w = (case sessions w i of None \<Rightarrow> w | Some s \<Rightarrow> w\<lparr>sessions := (sessions w)(i \<mapsto> f s)\<rparr>)"

definition invoke :: "sid \<times> listener \<Rightarrow> world \<Rightarrow> world" where
  "invoke l w = upd (fst l) (run_listener (snd l)) w"

text \<open>
  Modelled from the spec: cancelling a handle (its class is not among the sources). The
  one transition: the flag is set first, then the registered listeners run in the order
  of their registration, each once; cancelling again does nothing.
\<close>

definition cancel :: "tid \<Rightarrow> world \<Rightarrow> world" where
  "cancel t w =
     (if cancelled w t then w
      else foldl (\<lambda>w' l. invoke l w')
             (w\<lparr>tokens := (tokens w)(t := \<lparr>isCancellationRequested = True, listeners = []\<rparr>)\<rparr>)
             (listeners (tokens w t)))"

subsection \<open>transcribe and doTranscribe\<close>

definition new_session :: "tid \<Rightarrow> obj \<Rightarrow> session" where
  "new_session t n = \<lparr>token = t, disposed = False, delivered = [], pc = Idle,
     microphoneDevice = [], recordingDone = False, node = False, effects = [],
     onDidTranscribe = n, microphoneStream = None, audioContext = None,
     voiceTranscriptionTarget = None, sharedProcessConnection = None\<rparr>"

definition log :: "effect list \<Rightarrow> session \<Rightarrow> session" where
  "log es s = s\<lparr>effects := effects s @ es\<rparr>"

text \<open>
  The body of the async callback up to its first \<^verbatim>\<open>await\<close> (lines 96 to 108). The
  environment decides whether the call of line 100 throws synchronously: \<open>x\<close> is what it
  throws, if anything. The result is the session and what the body has thrown.
\<close>

definition callback_start :: "error option \<Rightarrow> session \<Rightarrow> session \<times> error option" where
  "callback_start x s =
     (let s1 = log [Report ''Getting microphone ready...''] s in
      case x of
        Some e \<Rightarrow> (s1, Some e)
      | None \<Rightarrow> ((log [GetUserMedia] s1)\<lparr>pc := AwaitMic\<rparr>, None))"

text \<open>
  The callback is an \<^verbatim>\<open>async\<close> function (line 95): what its body throws rejects the
  promise it returns, and the call itself returns that promise. The second component is
  what the call throws to its caller.
\<close>

definition async_function :: "session \<times> error option \<Rightarrow> session \<times> error option" where
  "async_function r =
     (case r of
        (s, None) \<Rightarrow> (s, None)
      | (s, Some e) \<Rightarrow> (s\<lparr>pc := Rejected e\<rparr>, None))"

text \<open>
  Modelled from the spec: the progress service (\<^verbatim>\<open>vs/platform/progress\<close> is not among
  the sources). \<^verbatim>\<open>withProgress\<close> begins the task immediately, without blocking the
  caller, and holds the promise the task returns (\<open>task_promise\<close> below); what the call
  of the task throws, it throws.
\<close>

definition withProgress ::
  "(session \<Rightarrow> session \<times> error option) \<Rightarrow> session \<Rightarrow> session \<times> error option" where
  "withProgress task s = task s"

text \<open>
  \<^verbatim>\<open>doTranscribe\<close> (lines 91 to 153) up to the first \<^verbatim>\<open>await\<close> of its callback; the
  second component is what it throws to \<^verbatim>\<open>transcribe\<close>.
\<close>

definition doTranscribe :: "error option \<Rightarrow> sid \<Rightarrow> world \<Rightarrow> world \<times> error option" where
  "doTranscribe x i w =
     (case sessions w i of
        None \<Rightarrow> (w, None)
      | Some s \<Rightarrow>
          (case withProgress (\<lambda>s. async_function (callback_start x s)) s of
             (s', thrown) \<Rightarrow> (w\<lparr>sessions := (sessions w)(i \<mapsto> s')\<rparr>, thrown)))"

text \<open>
  \<^verbatim>\<open>transcribe\<close> (lines 82 to 89): the emitter is created, its disposal is registered on
  the token, \<^verbatim>\<open>doTranscribe\<close> is called. The result is either what is thrown to the
  caller, or the new session, whose event is returned.
\<close>

definition transcribe_call :: "error option \<Rightarrow> tid \<Rightarrow> world \<Rightarrow> (error + sid) \<times> world" where
  "transcribe_call x t w =
     (let i = next_sid w;
          n = next_obj w;
          w1 = w\<lparr>sessions := (sessions w)(i \<mapsto> new_session t n), next_sid := Suc i,
                 next_obj := Suc n\<rparr>;
          w2 = onCancellationRequested t (i, DisposeEmitter) w1
      in case doTranscribe x i w2 of
           (w3, Some e) \<Rightarrow> (Inl e, w3)
         | (w3, None) \<Rightarrow> (Inr i, w3))"

text \<open>\<^verbatim>\<open>transcribe\<close> when nothing throws in the callback: the new session and the state.\<close>

definition transcribe :: "tid \<Rightarrow> world \<Rightarrow> sid \<times> world" where
  "transcribe t w = (next_sid w, snd (transcribe_call None t w))"

text \<open>
  The segments of the async callback. A segment runs from the settling of an awaited
  promise to the next \<^verbatim>\<open>await\<close> (or to the end of the callback) without
  interruption, so \<^verbatim>\<open>token.isCancellationRequested\<close> has one value \<open>c\<close> throughout. A
  segment is given the first free identity \<open>n\<close> and returns the session's variables as
  it leaves them, the listeners it registers with \<^verbatim>\<open>token.onCancellationRequested\<close>, in
  order, and the first identity that is still free. A segment whose promise is not the
  one the callback waits for does not run.

  The object an awaited promise resolves with is the environment's. As the spec has the
  microphone stream and the side-channel connection created by their collaborators for
  the request, the model gives each a new identity.
\<close>

text \<open>Lines 110 to 131: from the resolution of \<^verbatim>\<open>getUserMedia\<close> to the \<^verbatim>\<open>await\<close> of \<^verbatim>\<open>addModule\<close>.\<close>

definition getUserMedia_resolved ::
  "track list \<Rightarrow> bool \<Rightarrow> obj \<Rightarrow> session \<Rightarrow> session \<times> listener list \<times> obj" where
  "getUserMedia_resolved trs c n s =
     (if pc s \<noteq> AwaitMic then (s, [], n)
      else
        let s1 = s\<lparr>microphoneDevice := trs, microphoneStream := Some n\<rparr> in
        if c then (s1\<lparr>pc := Returned\<rparr>, [], Suc n)
        else ((log [NewAudioContext, CreateMediaStreamSource, AddModule] s1)
                \<lparr>audioContext := Some (Suc n), pc := AwaitModule\<rparr>,
              [Teardown], Suc (Suc n)))"

text \<open>
  Lines 133 to 141 and line 53: from the resolution of \<^verbatim>\<open>addModule\<close>, through the
  constructor of the worklet node (which installs \<^verbatim>\<open>port.onmessage\<close>), into \<^verbatim>\<open>start\<close>
  up to the \<^verbatim>\<open>await\<close> of \<^verbatim>\<open>createRawConnection\<close>.
\<close>

definition addModule_resolved :: "bool \<Rightarrow> obj \<Rightarrow> session \<Rightarrow> session \<times> listener list \<times> obj" where
  "addModule_resolved c n s =
     (if pc s \<noteq> AwaitModule then (s, [], n)
      else if c then (s\<lparr>pc := Returned\<rparr>, [], n)
      else ((log [NewWorkletNode, CreateRawConnection] s)
              \<lparr>node := True, voiceTranscriptionTarget := Some n, pc := AwaitConn\<rparr>,
            [], Suc n))"

text \<open>
  \<^verbatim>\<open>start\<close>, lines 55 to 60: from the resolution of \<^verbatim>\<open>createRawConnection\<close> to the end
  of \<^verbatim>\<open>start\<close>. The flag is not read here.
\<close>

definition createRawConnection_resolved ::
  "bool \<Rightarrow> obj \<Rightarrow> session \<Rightarrow> session \<times> listener list \<times> obj" where
  "createRawConnection_resolved c n s =
     (if pc s \<noteq> AwaitConn then (s, [], n)
      else ((log [PostStart] s)\<lparr>sharedProcessConnection := Some n, pc := AwaitStart\<rparr>,
            [StopWorklet], Suc n))"

text \<open>Lines 143 to 151: from the resolution of \<^verbatim>\<open>start\<close> to the \<^verbatim>\<open>return\<close>.\<close>

definition start_resolved :: "bool \<Rightarrow> obj \<Rightarrow> session \<Rightarrow> session \<times> listener list \<times> obj" where
  "start_resolved c n s =
     (if pc s \<noteq> AwaitStart then (s, [], n)
      else if c then (s\<lparr>pc := Returned\<rparr>, [], n)
      else ((log [ConnectSource, Report ''Recording from microphone...''] s)\<lparr>pc := Recording\<rparr>,
            [], n))"

text \<open>
  An awaited promise rejects: nothing in the callback catches, so the callback's own
  promise rejects with the same reason. A rejection of \<^verbatim>\<open>createRawConnection\<close> rejects
  \<^verbatim>\<open>start\<close> and, through the \<^verbatim>\<open>await\<close> of line 141, the callback.
\<close>

definition rejected ::
  "pc \<Rightarrow> error \<Rightarrow> bool \<Rightarrow> obj \<Rightarrow> session \<Rightarrow> session \<times> listener list \<times> obj" where
  "rejected at e c n s = (if pc s \<noteq> at then (s, [], n) else (s\<lparr>pc := Rejected e\<rparr>, [], n))"

text \<open>A message arrives on the port of the worklet node; without a node nobody listens.\<close>

definition port_message ::
  "jsvalue \<Rightarrow> bool \<Rightarrow> obj \<Rightarrow> session \<Rightarrow> session \<times> listener list \<times> obj" where
  "port_message v c n s = (if node s then (onmessage v s, [], n) else (s, [], n))"

subsection \<open>The event loop\<close>

datatype event =
    Transcribe tid  \<comment> \<open>a call of \<^verbatim>\<open>transcribe\<close>\<close>
  | TranscribeThrowing tid error  \<comment> \<open>a call during which the callback throws synchronously\<close>
  | Cancel tid
  | Tick
  | MicResolved sid "track list"
  | MicRejected sid error
  | ModuleResolved sid
  | ModuleRejected sid error
  | ConnResolved sid
  | ConnRejected sid error
  | StartResolved sid
  | Message sid jsvalue

text \<open>The session an event resumes, and the segment it runs there.\<close>

fun target :: "event \<Rightarrow> sid option" where
  "target (MicResolved i trs) = Some i"
| "target (MicRejected i e) = Some i"
| "target (ModuleResolved i) = Some i"
| "target (ModuleRejected i e) = Some i"
| "target (ConnResolved i) = Some i"
| "target (ConnRejected i e) = Some i"
| "target (StartResolved i) = Some i"
| "target (Message i v) = Some i"
| "target _ = None"

fun segment :: "event \<Rightarrow> bool \<Rightarrow> obj \<Rightarrow> session \<Rightarrow> session \<times> listener list \<times> obj" where
  "segment (MicResolved i trs) = getUserMedia_resolved trs"
| "segment (MicRejected i e) = rejected AwaitMic e"
| "segment (ModuleResolved i) = addModule_resolved"
| "segment (ModuleRejected i e) = rejected AwaitModule e"
| "segment (ConnResolved i) = createRawConnection_resolved"
| "segment (ConnRejected i e) = rejected AwaitConn e"
| "segment (StartResolved i) = start_resolved"
| "segment (Message i v) = port_message v"
| "segment _ = (\<lambda>c n s. (s, [], n))"

text \<open>
  Running a segment in session \<open>i\<close>: the flag of the session's token is read, the
  session's variables are replaced, the listeners are registered on the token.
\<close>

definition resume ::
  "sid \<Rightarrow> (bool \<Rightarrow> obj \<Rightarrow> session \<Rightarrow> session \<times> listener list \<times> obj) \<Rightarrow> world \<Rightarrow> world" where
  "resume i f w =
     (case sessions w i of
        None \<Rightarrow> w
      | Some s \<Rightarrow>
          (case f (cancelled w (token s)) (next_obj w) s of
             (s', ls, n') \<Rightarrow>
               foldl (\<lambda>w' l. onCancellationRequested (token s) (i, l) w')
                 (w\<lparr>sessions := (sessions w)(i \<mapsto> s'), next_obj := n'\<rparr>) ls))"

text \<open>
  One turn of the event loop. A timer runs the listener that has waited longest. An event
  for a session that does not exist, or for a promise the session does not wait for,
  changes nothing.
\<close>

fun step :: "event \<Rightarrow> world \<Rightarrow> world" where
  "step (Transcribe t) w = snd (transcribe t w)"
| "step (TranscribeThrowing t e) w = snd (transcribe_call (Some e) t w)"
| "step (Cancel t) w = cancel t w"
| "step Tick w = (case timers w of [] \<Rightarrow> w | l # ls \<Rightarrow> invoke l (w\<lparr>timers := ls\<rparr>))"
| "step e w = (case target e of None \<Rightarrow> w | Some i \<Rightarrow> resume i (segment e) w)"

definition run :: "event list \<Rightarrow> world \<Rightarrow> world" where
  "run evs w = foldl (\<lambda>w' e. step e w') w evs"

text \<open>
  The promise of the async callback, which the progress wrapper holds: fulfilled when the
  callback has returned at one of its checks, or when it has returned \<^verbatim>\<open>recordingDone.p\<close>
  (line 151) and \<^verbatim>\<open>recordingDone\<close> is completed; rejected when an awaited promise has
  rejected or the body has thrown.
\<close>

datatype promise = Pending | Fulfilled | Failed error

definition task_promise :: "session \<Rightarrow> promise" where
  "task_promise s =
     (case pc s of
        Returned \<Rightarrow> Fulfilled
      | Rejected e \<Rightarrow> Failed e
      | Recording \<Rightarrow> (if recordingDone s then Fulfilled else Pending)
      | _ \<Rightarrow> Pending)"

subsection \<open>One session seen from inside\<close>

text \<open>
  What a session can observe and what can act on it: its variables, the flag of its
  token, its listeners registered on that token, and its listeners waiting on the timer
  queue.
\<close>

type_synonym lview = "session \<times> bool \<times> listener list \<times> listener list"

definition mine :: "sid \<Rightarrow> (sid \<times> listener) list \<Rightarrow> listener list" where
  "mine i xs = map snd (filter (\<lambda>p. fst p = i) xs)"

definition view :: "world \<Rightarrow> sid \<Rightarrow> session \<Rightarrow> lview" where
  "view w i s =
     (s, cancelled w (token s), mine i (listeners (tokens w (token s))), mine i (timers w))"

definition fire_all :: "listener list \<Rightarrow> session \<Rightarrow> session" where
  "fire_all ls s = foldl (\<lambda>s' l. run_listener l s') s ls"

text \<open>
  The moves of one session: a segment of its callback runs, its token is cancelled, one
  of its timers fires. The lemma \<open>step_view\<close> shows that a step of the world is, for each
  session, one of these moves or no change.
\<close>

inductive lmove :: "lview \<Rightarrow> lview \<Rightarrow> bool" where
  seg: "segment e c n s = (s', ls, n') \<Longrightarrow>
        lmove (s, c, L, T) (s', c, if c then L else L @ ls, if c then T @ ls else T)"
| cancel: "lmove (s, False, L, T) (fire_all L s, True, [], T)"
| timer: "lmove (s, c, L, l # T) (run_listener l s, c, L, T)"

text \<open>The session as \<^verbatim>\<open>transcribe\<close> leaves it.\<close>

definition born :: "error option \<Rightarrow> tid \<Rightarrow> obj \<Rightarrow> session" where
  "born x t n = fst (async_function (callback_start x (new_session t n)))"

inductive lreach :: "lview \<Rightarrow> bool" where
  start: "lreach (born x t n, c, if c then [] else [DisposeEmitter],
            if c then [DisposeEmitter] else [])"
| move: "lreach v \<Longrightarrow> lmove v v' \<Longrightarrow> lreach v'"

text \<open>
  The listeners a session has on its token while the token is not cancelled, read off
  the session's effects: the disposal of the emitter since \<^verbatim>\<open>transcribe\<close>, the teardown
  once the audio context exists, the stop of the worklet once \<^verbatim>\<open>start\<close> has posted.
\<close>

definition registered :: "session \<Rightarrow> listener list" where
  "registered s =
     DisposeEmitter #
     (if NewAudioContext \<in> set (effects s) then [Teardown] else []) @
     (if PostStart \<in> set (effects s) then [StopWorklet] else [])"

text \<open>The objects of a session.\<close>

definition resources :: "session \<Rightarrow> obj list" where
  "resources s =
     onDidTranscribe s #
     concat (map (\<lambda>x. case x of None \<Rightarrow> [] | Some y \<Rightarrow> [y])
       [microphoneStream s, audioContext s, voiceTranscriptionTarget s,
        sharedProcessConnection s])"


text \<open>Well-formedness of the shared store: listeners and timers belong to existing sessions.\<close>

definition winv :: "world \<Rightarrow> bool" where
  "winv w \<longleftrightarrow>
     (\<forall>i s. sessions w i = Some s \<longrightarrow> i < next_sid w) \<and>
     (\<forall>t i l. (i, l) \<in> set (listeners (tokens w t)) \<longrightarrow> (\<exists>s. sessions w i = Some s \<and> token s = t)) \<and>
     (\<forall>i l. (i, l) \<in> set (timers w) \<longrightarrow> i < next_sid w)"

subsection \<open>Frame lemmas\<close>

lemma mine_simps [simp]:
  "mine i [] = []"
  "mine i ((j, l) # xs) = (if j = i then l # mine i xs else mine i xs)"
  "mine i (xs @ ys) = mine i xs @ mine i ys"
  by (simp_all add: mine_def)

lemma mine_map_Pair [simp]: "mine i (map (Pair j) ls) = (if j = i then ls else [])"
  by (induction ls) auto

lemma mine_empty: "mine i xs = [] \<longleftrightarrow> (\<forall>l. (i, l) \<notin> set xs)"
  by (auto simp: mine_def filter_empty_conv)

lemma set_mine [simp]: "l \<in> set (mine i xs) \<longleftrightarrow> (i, l) \<in> set xs"
  by (force simp: mine_def)

lemma upd_frame [simp]:
  "tokens (upd i f w) = tokens w"
  "timers (upd i f w) = timers w"
  "next_sid (upd i f w) = next_sid w"
  "next_obj (upd i f w) = next_obj w"
  "cancelled (upd i f w) t = cancelled w t"
  by (simp_all add: upd_def cancelled_def split: option.splits)

lemma upd_sessions [simp]:
  "sessions (upd i f w) j = (if j = i then map_option f (sessions w i) else sessions w j)"
  by (simp add: upd_def split: option.splits)

lemma token_run_listener [simp]: "token (run_listener l s) = token s"
  by (cases l) simp_all

lemma token_fire_all [simp]: "token (fire_all ls s) = token s"
  unfolding fire_all_def by (induction ls arbitrary: s) simp_all

lemma fire_all_simps [simp]:
  "fire_all [] s = s"
  "fire_all (l # ls) s = fire_all ls (run_listener l s)"
  by (simp_all add: fire_all_def)

lemma fire_all_append [simp]: "fire_all (xs @ ys) s = fire_all ys (fire_all xs s)"
  by (simp add: fire_all_def)

lemma invoke_frame [simp]:
  "tokens (invoke p w) = tokens w"
  "timers (invoke p w) = timers w"
  "next_sid (invoke p w) = next_sid w"
  "next_obj (invoke p w) = next_obj w"
  "cancelled (invoke p w) t = cancelled w t"
  by (simp_all add: invoke_def)

lemma invoke_sessions [simp]:
  "sessions (invoke (j, l) w) i = (if i = j then map_option (run_listener l) (sessions w i) else sessions w i)"
  by (simp add: invoke_def)

lemma invoke_all_frame [simp]:
  "tokens (foldl (\<lambda>w' l. invoke l w') w ls) = tokens w"
  "timers (foldl (\<lambda>w' l. invoke l w') w ls) = timers w"
  "next_sid (foldl (\<lambda>w' l. invoke l w') w ls) = next_sid w"
  "next_obj (foldl (\<lambda>w' l. invoke l w') w ls) = next_obj w"
  by (induction ls arbitrary: w) simp_all

lemma invoke_all_sessions:
  "sessions (foldl (\<lambda>w' l. invoke l w') w ls) i = map_option (fire_all (mine i ls)) (sessions w i)"
proof (induction ls arbitrary: w)
  case Nil
  show ?case by (simp add: option.map_ident)
next
  case (Cons p ls)
  obtain j l where p: "p = (j, l)" by (cases p)
  show ?case
    by (simp add: Cons.IH p option.map_comp comp_def)
qed

lemma register_all_frame [simp]:
  "sessions (foldl (\<lambda>w' l. onCancellationRequested t (i, l) w') w ls) = sessions w"
  "next_sid (foldl (\<lambda>w' l. onCancellationRequested t (i, l) w') w ls) = next_sid w"
  "next_obj (foldl (\<lambda>w' l. onCancellationRequested t (i, l) w') w ls) = next_obj w"
  "cancelled (foldl (\<lambda>w' l. onCancellationRequested t (i, l) w') w ls) t' = cancelled w t'"
  by (induction ls arbitrary: w) (simp_all add: onCancellationRequested_def cancelled_def)

lemma register_all_listeners:
  "listeners (tokens (foldl (\<lambda>w' l. onCancellationRequested t (i, l) w') w ls) t') =
     (if t' = t \<and> \<not> cancelled w t then listeners (tokens w t') @ map (Pair i) ls
      else listeners (tokens w t'))"
proof (induction ls arbitrary: w)
  case Nil
  show ?case by simp
next
  case (Cons l ls)
  show ?case
    by (simp add: Cons.IH) (simp add: onCancellationRequested_def cancelled_def)
qed

lemma register_all_timers:
  "timers (foldl (\<lambda>w' l. onCancellationRequested t (i, l) w') w ls) =
     (if cancelled w t then timers w @ map (Pair i) ls else timers w)"
proof (induction ls arbitrary: w)
  case Nil
  show ?case by simp
next
  case (Cons l ls)
  show ?case
    by (simp add: Cons.IH) (simp add: onCancellationRequested_def cancelled_def)
qed

subsection \<open>Segments and their effect on the shared store\<close>

lemmas segment_defs = getUserMedia_resolved_def addModule_resolved_def
  createRawConnection_resolved_def start_resolved_def rejected_def port_message_def log_def

lemma token_onmessage [simp]: "token (onmessage v s) = token s"
  by (cases v) (simp_all add: fire_def)

lemma token_segment: "segment e c n s = (s', ls, n') \<Longrightarrow> token s' = token s"
  by (cases e) (auto simp: segment_defs Let_def split: if_splits)

lemma resume_frame [simp]:
  "next_sid (resume i f w) = next_sid w"
  "cancelled (resume i f w) t = cancelled w t"
  by (simp_all add: resume_def split: option.splits prod.splits) (simp add: cancelled_def)

lemma resume_sessions:
  "sessions (resume i f w) j =
     (if j = i then map_option (\<lambda>s. fst (f (cancelled w (token s)) (next_obj w) s)) (sessions w i)
      else sessions w j)"
  by (simp add: resume_def split: option.splits prod.splits)

lemma resume_listeners:
  "sessions w i = Some s \<Longrightarrow> f (cancelled w (token s)) (next_obj w) s = (s', ls, n') \<Longrightarrow>
   listeners (tokens (resume i f w) t) =
     (if t = token s \<and> \<not> cancelled w t then listeners (tokens w t) @ map (Pair i) ls
      else listeners (tokens w t))"
  by (auto simp: resume_def register_all_listeners cancelled_def)

lemma resume_timers:
  "sessions w i = Some s \<Longrightarrow> f (cancelled w (token s)) (next_obj w) s = (s', ls, n') \<Longrightarrow>
   timers (resume i f w) =
     (if cancelled w (token s) then timers w @ map (Pair i) ls else timers w)"
  by (auto simp: resume_def register_all_timers cancelled_def)


lemma resume_None [simp]: "sessions w i = None \<Longrightarrow> resume i f w = w"
  by (simp add: resume_def)

lemma cancel_frame [simp]:
  "next_sid (cancel t w) = next_sid w"
  "timers (cancel t w) = timers w"
  "next_obj (cancel t w) = next_obj w"
  by (simp_all add: cancel_def)

lemma cancel_cancelled [simp]: "cancelled (cancel t w) t' = (t' = t \<or> cancelled w t')"
  by (auto simp: cancel_def cancelled_def)

lemma cancel_listeners:
  "listeners (tokens (cancel t w) t') =
     (if t' = t \<and> \<not> cancelled w t then [] else listeners (tokens w t'))"
  by (simp add: cancel_def)

lemma cancel_sessions:
  "sessions (cancel t w) i =
     (if cancelled w t then sessions w i
      else map_option (fire_all (mine i (listeners (tokens w t)))) (sessions w i))"
  by (simp add: cancel_def invoke_all_sessions)

lemmas transcribe_defs = transcribe_call_def Let_def doTranscribe_def withProgress_def
  async_function_def callback_start_def onCancellationRequested_def

lemma born_simps:
  "born None t n = (log [GetUserMedia] (log [Report ''Getting microphone ready...''] (new_session t n)))
     \<lparr>pc := AwaitMic\<rparr>"
  "born (Some e) t n = (log [Report ''Getting microphone ready...''] (new_session t n))
     \<lparr>pc := Rejected e\<rparr>"
  by (simp_all add: born_def async_function_def callback_start_def)

lemma transcribe_call_fst [simp]: "fst (transcribe_call x t w) = Inr (next_sid w)"
  by (cases x) (simp_all add: transcribe_defs)

lemma transcribe_call_frame [simp]:
  "next_sid (snd (transcribe_call x t w)) = Suc (next_sid w)"
  "next_obj (snd (transcribe_call x t w)) = Suc (next_obj w)"
  "cancelled (snd (transcribe_call x t w)) t' = cancelled w t'"
  by (cases x; simp add: transcribe_defs cancelled_def)+

lemma transcribe_call_sessions:
  "sessions (snd (transcribe_call x t w)) i =
     (if i = next_sid w then Some (born x t (next_obj w)) else sessions w i)"
  by (cases x) (simp_all add: transcribe_defs born_simps)

lemma transcribe_call_listeners:
  "listeners (tokens (snd (transcribe_call x t w)) t') =
     (if t' = t \<and> \<not> cancelled w t then listeners (tokens w t') @ [(next_sid w, DisposeEmitter)]
      else listeners (tokens w t'))"
  by (cases x) (simp_all add: transcribe_defs cancelled_def)

lemma transcribe_call_timers:
  "timers (snd (transcribe_call x t w)) =
     (if cancelled w t then timers w @ [(next_sid w, DisposeEmitter)] else timers w)"
  by (cases x) (simp_all add: transcribe_defs cancelled_def)

lemma transcribe_fst [simp]: "fst (transcribe t w) = next_sid w"
  by (simp add: transcribe_def)

lemma transcribe_snd [simp]: "snd (transcribe t w) = snd (transcribe_call None t w)"
  by (simp add: transcribe_def)

lemma token_born [simp]: "token (born x t n) = t"
  by (cases x) (simp_all add: born_simps new_session_def log_def)

subsection \<open>Runs\<close>

lemma run_Nil [simp]: "run [] w = w"
  by (simp add: run_def)

lemma run_Cons [simp]: "run (e # evs) w = run evs (step e w)"
  by (simp add: run_def)

lemma run_append: "run (xs @ ys) w = run ys (run xs w)"
  by (simp add: run_def)

lemma run_snoc: "run (evs @ [e]) w = step e (run evs w)"
  by (simp add: run_def)

lemma step_resume: "target e = Some j \<Longrightarrow> step e w = resume j (segment e) w"
  by (cases e) simp_all

lemma event_cases:
  obtains (Transcribe) t where "e = Transcribe t"
  | (Throwing) t a where "e = TranscribeThrowing t a"
  | (Cancel) t where "e = Cancel t"
  | (Tick) "e = Tick"
  | (Seg) j where "target e = Some j"
  by (cases e) simp_all

subsection \<open>The shared store stays well formed\<close>

lemma winv_init: "winv init"
  by (simp add: winv_def init_def fresh_token_def)

lemma winvI:
  assumes "\<And>i s. sessions w i = Some s \<Longrightarrow> i < next_sid w"
    and "\<And>t i l. (i, l) \<in> set (listeners (tokens w t)) \<Longrightarrow> \<exists>s. sessions w i = Some s \<and> token s = t"
    and "\<And>i l. (i, l) \<in> set (timers w) \<Longrightarrow> i < next_sid w"
  shows "winv w"
  using assms unfolding winv_def by blast

lemma winv_session: "winv w \<Longrightarrow> sessions w i = Some s \<Longrightarrow> i < next_sid w"
  unfolding winv_def by blast

lemma winv_listener:
  "winv w \<Longrightarrow> (i, l) \<in> set (listeners (tokens w t)) \<Longrightarrow> \<exists>s. sessions w i = Some s \<and> token s = t"
  unfolding winv_def by blast

lemma winv_timer: "winv w \<Longrightarrow> (i, l) \<in> set (timers w) \<Longrightarrow> i < next_sid w"
  unfolding winv_def by blast

lemma winv_transcribe_call:
  assumes "winv w"
  shows "winv (snd (transcribe_call x t w))"
proof (rule winvI)
  fix i s
  assume "sessions (snd (transcribe_call x t w)) i = Some s"
  then show "i < next_sid (snd (transcribe_call x t w))"
    using winv_session [OF assms, of i]
    by (auto simp: transcribe_call_sessions less_Suc_eq split: if_splits)
next
  fix t' i l
  assume "(i, l) \<in> set (listeners (tokens (snd (transcribe_call x t w)) t'))"
  then consider "(i, l) \<in> set (listeners (tokens w t'))" | "i = next_sid w" "t' = t"
    by (auto simp: transcribe_call_listeners split: if_splits)
  then show "\<exists>s. sessions (snd (transcribe_call x t w)) i = Some s \<and> token s = t'"
  proof cases
    case 1
    from winv_listener [OF assms 1] obtain s where s: "sessions w i = Some s" "token s = t'"
      by blast
    with winv_session [OF assms s(1)] show ?thesis
      by (simp add: transcribe_call_sessions)
  next
    case 2
    then show ?thesis by (simp add: transcribe_call_sessions)
  qed
next
  fix i l
  assume "(i, l) \<in> set (timers (snd (transcribe_call x t w)))"
  then show "i < next_sid (snd (transcribe_call x t w))"
    using winv_timer [OF assms, of i l]
    by (auto simp: transcribe_call_timers less_Suc_eq split: if_splits)
qed

lemma winv_cancel:
  assumes "winv w"
  shows "winv (cancel t w)"
proof (rule winvI)
  fix i s
  assume "sessions (cancel t w) i = Some s"
  then obtain s0 where "sessions w i = Some s0"
    by (auto simp: cancel_sessions split: if_splits)
  then show "i < next_sid (cancel t w)"
    using winv_session [OF assms] by simp
next
  fix t' i l
  assume "(i, l) \<in> set (listeners (tokens (cancel t w) t'))"
  then have "(i, l) \<in> set (listeners (tokens w t'))"
    by (auto simp: cancel_listeners split: if_splits)
  from winv_listener [OF assms this] obtain s where "sessions w i = Some s" "token s = t'"
    by blast
  then show "\<exists>s. sessions (cancel t w) i = Some s \<and> token s = t'"
    by (simp add: cancel_sessions)
next
  fix i l
  assume "(i, l) \<in> set (timers (cancel t w))"
  then show "i < next_sid (cancel t w)"
    using winv_timer [OF assms, of i l] by simp
qed

lemma winv_tick:
  assumes "winv w" "timers w = p # ps"
  shows "winv (invoke p (w\<lparr>timers := ps\<rparr>))"
proof -
  obtain j l where p: "p = (j, l)" by (cases p)
  show ?thesis
    unfolding p
  proof (rule winvI)
    fix i s
    assume "sessions (invoke (j, l) (w\<lparr>timers := ps\<rparr>)) i = Some s"
    then obtain s0 where "sessions w i = Some s0"
      by (auto split: if_splits)
    then show "i < next_sid (invoke (j, l) (w\<lparr>timers := ps\<rparr>))"
      using winv_session [OF assms(1)] by simp
  next
    fix t' i l'
    assume "(i, l') \<in> set (listeners (tokens (invoke (j, l) (w\<lparr>timers := ps\<rparr>)) t'))"
    then have "(i, l') \<in> set (listeners (tokens w t'))" by simp
    from winv_listener [OF assms(1) this] obtain s where "sessions w i = Some s" "token s = t'"
      by blast
    then show "\<exists>s. sessions (invoke (j, l) (w\<lparr>timers := ps\<rparr>)) i = Some s \<and> token s = t'"
      by auto
  next
    fix i l'
    assume "(i, l') \<in> set (timers (invoke (j, l) (w\<lparr>timers := ps\<rparr>)))"
    then have "(i, l') \<in> set (timers w)" by (simp add: assms(2))
    then show "i < next_sid (invoke (j, l) (w\<lparr>timers := ps\<rparr>))"
      using winv_timer [OF assms(1)] by simp
  qed
qed

lemma winv_resume:
  assumes "winv w" and tok: "\<And>c n s s' ls n'. f c n s = (s', ls, n') \<Longrightarrow> token s' = token s"
  shows "winv (resume j f w)"
proof (cases "sessions w j")
  case None
  with assms show ?thesis by simp
next
  case (Some sj)
  obtain s' ls n' where f: "f (cancelled w (token sj)) (next_obj w) sj = (s', ls, n')"
    by (cases "f (cancelled w (token sj)) (next_obj w) sj")
  have t: "token s' = token sj" using tok [OF f] .
  note L = resume_listeners [of w j sj f s' ls n', OF Some f]
  note T = resume_timers [of w j sj f s' ls n', OF Some f]
  have S: "sessions (resume j f w) i = (if i = j then Some s' else sessions w i)" for i
    by (simp add: resume_sessions Some f)
  have lt: "j < next_sid w" using winv_session [OF assms(1) Some] .
  show ?thesis
  proof (rule winvI)
    fix i s
    assume "sessions (resume j f w) i = Some s"
    then show "i < next_sid (resume j f w)"
      using winv_session [OF assms(1), of i] lt by (auto simp: S split: if_splits)
  next
    fix t' i l
    assume "(i, l) \<in> set (listeners (tokens (resume j f w) t'))"
    then consider "(i, l) \<in> set (listeners (tokens w t'))" | "i = j" "t' = token sj"
      by (auto simp: L split: if_splits)
    then show "\<exists>s. sessions (resume j f w) i = Some s \<and> token s = t'"
    proof cases
      case 1
      from winv_listener [OF assms(1) 1] obtain s where "sessions w i = Some s" "token s = t'"
        by blast
      then show ?thesis using Some t by (auto simp: S)
    next
      case 2
      then show ?thesis by (simp add: S t)
    qed
  next
    fix i l
    assume "(i, l) \<in> set (timers (resume j f w))"
    then show "i < next_sid (resume j f w)"
      using winv_timer [OF assms(1), of i l] lt by (auto simp: T split: if_splits)
  qed
qed

lemma winv_step: "winv w \<Longrightarrow> winv (step e w)"
proof (cases e rule: event_cases)
  case (Transcribe t)
  assume "winv w" then show ?thesis by (simp add: Transcribe winv_transcribe_call)
next
  case (Throwing t a)
  assume "winv w" then show ?thesis by (simp add: Throwing winv_transcribe_call)
next
  case (Cancel t)
  assume "winv w" then show ?thesis by (simp add: Cancel winv_cancel)
next
  case Tick
  assume "winv w" then show ?thesis by (simp add: Tick winv_tick split: list.splits)
next
  case (Seg j)
  assume "winv w" then show ?thesis
    by (simp add: step_resume [OF Seg] winv_resume token_segment)
qed

lemma winv_run: "winv w \<Longrightarrow> winv (run evs w)"
  by (induction evs arbitrary: w) (simp_all add: winv_step)

subsection \<open>A step of the world is a move of each session, or nothing to it\<close>

lemma view_transcribe:
  assumes "winv w" "sessions w i = Some s"
  shows "sessions (snd (transcribe_call x t w)) i = Some s"
    and "view (snd (transcribe_call x t w)) i s = view w i s"
proof -
  have ne: "i \<noteq> next_sid w" using winv_session [OF assms] by simp
  then show "sessions (snd (transcribe_call x t w)) i = Some s"
    by (simp add: transcribe_call_sessions assms(2))
  show "view (snd (transcribe_call x t w)) i s = view w i s"
    using ne by (simp add: view_def transcribe_call_listeners transcribe_call_timers)
qed

lemma view_cancel:
  assumes "winv w" "sessions w i = Some s"
  shows "\<exists>s'. sessions (cancel t w) i = Some s' \<and>
     (view (cancel t w) i s' = view w i s \<or> lmove (view w i s) (view (cancel t w) i s'))"
proof (cases "cancelled w t")
  case True
  then have "cancel t w = w" by (simp add: cancel_def)
  then show ?thesis using assms by simp
next
  case nc: False
  show ?thesis
  proof (cases "token s = t")
    case True
    let ?s' = "fire_all (mine i (listeners (tokens w t))) s"
    have "sessions (cancel t w) i = Some ?s'"
      using nc assms by (simp add: cancel_sessions)
    moreover have "view (cancel t w) i ?s' = (?s', True, [], mine i (timers w))"
      using nc True by (simp add: view_def cancel_listeners)
    moreover have "view w i s = (s, False, mine i (listeners (tokens w t)), mine i (timers w))"
      using nc True by (simp add: view_def)
    ultimately show ?thesis by (auto intro: lmove.cancel)
  next
    case False
    have "mine i (listeners (tokens w t)) = []"
      unfolding mine_empty using winv_listener [OF assms(1), of i _ t] assms(2) False by auto
    then have "sessions (cancel t w) i = Some s"
      using assms by (simp add: cancel_sessions)
    moreover have "view (cancel t w) i s = view w i s"
      using False by (auto simp: view_def cancel_listeners)
    ultimately show ?thesis by simp
  qed
qed

lemma view_tick:
  assumes "sessions w i = Some s"
  shows "\<exists>s'. sessions (step Tick w) i = Some s' \<and>
     (view (step Tick w) i s' = view w i s \<or> lmove (view w i s) (view (step Tick w) i s'))"
proof (cases "timers w")
  case Nil
  then show ?thesis using assms by simp
next
  case (Cons p ps)
  obtain j l where p: "p = (j, l)" by (cases p)
  show ?thesis
  proof (cases "j = i")
    case True
    have "sessions (step Tick w) i = Some (run_listener l s)"
      using assms by (simp add: Cons p True)
    moreover have "view (step Tick w) i (run_listener l s) =
        (run_listener l s, cancelled w (token s), mine i (listeners (tokens w (token s))), mine i ps)"
      by (simp add: Cons p view_def cancelled_def)
    moreover have "view w i s =
        (s, cancelled w (token s), mine i (listeners (tokens w (token s))), l # mine i ps)"
      by (simp add: Cons p True view_def)
    ultimately show ?thesis by (auto intro: lmove.timer)
  next
    case False
    have "sessions (step Tick w) i = Some s"
      using assms False by (simp add: Cons p)
    moreover have "view (step Tick w) i s = view w i s"
      using False by (simp add: Cons p view_def cancelled_def)
    ultimately show ?thesis by simp
  qed
qed

lemma view_resume:
  assumes "sessions w i = Some s" "target e = Some j"
  shows "\<exists>s'. sessions (resume j (segment e) w) i = Some s' \<and>
     (view (resume j (segment e) w) i s' = view w i s \<or>
      lmove (view w i s) (view (resume j (segment e) w) i s'))"
proof (cases "j = i")
  case True
  obtain s' ls n' where f: "segment e (cancelled w (token s)) (next_obj w) s = (s', ls, n')"
    by (cases "segment e (cancelled w (token s)) (next_obj w) s")
  have t: "token s' = token s" using token_segment [OF f] .
  note L = resume_listeners [of w i s "segment e" s' ls n', OF assms(1) f]
  note T = resume_timers [of w i s "segment e" s' ls n', OF assms(1) f]
  have "sessions (resume j (segment e) w) i = Some s'"
    by (simp add: resume_sessions True assms(1) f)
  moreover have "view (resume j (segment e) w) i s' =
      (s', cancelled w (token s),
       if cancelled w (token s) then mine i (listeners (tokens w (token s)))
       else mine i (listeners (tokens w (token s))) @ ls,
       if cancelled w (token s) then mine i (timers w) @ ls else mine i (timers w))"
    by (simp add: view_def True t L T)
  moreover have "view w i s =
      (s, cancelled w (token s), mine i (listeners (tokens w (token s))), mine i (timers w))"
    by (simp add: view_def)
  ultimately show ?thesis
    using lmove.seg [OF f] by auto
next
  case False
  have S: "sessions (resume j (segment e) w) i = Some s"
    using False assms(1) by (simp add: resume_sessions)
  have "view (resume j (segment e) w) i s = view w i s"
  proof (cases "sessions w j")
    case None
    then show ?thesis by simp
  next
    case (Some sj)
    obtain s' ls n' where f: "segment e (cancelled w (token sj)) (next_obj w) sj = (s', ls, n')"
      by (cases "segment e (cancelled w (token sj)) (next_obj w) sj")
    note L = resume_listeners [of w j sj "segment e" s' ls n', OF Some f]
    note T = resume_timers [of w j sj "segment e" s' ls n', OF Some f]
    show ?thesis using False by (simp add: view_def L T)
  qed
  with S show ?thesis by simp
qed

lemma step_view:
  assumes "winv w" "sessions w i = Some s"
  shows "\<exists>s'. sessions (step e w) i = Some s' \<and>
     (view (step e w) i s' = view w i s \<or> lmove (view w i s) (view (step e w) i s'))"
proof (cases e rule: event_cases)
  case (Transcribe t)
  then show ?thesis using view_transcribe [OF assms] by simp
next
  case (Throwing t a)
  then show ?thesis using view_transcribe [OF assms] by simp
next
  case (Cancel t)
  then show ?thesis using view_cancel [OF assms] by simp
next
  case Tick
  then show ?thesis using view_tick [OF assms(2)] by simp
next
  case (Seg j)
  then show ?thesis using view_resume [OF assms(2) Seg] by (simp add: step_resume)
qed

lemma run_view:
  assumes "winv w" "sessions w i = Some s"
  shows "\<exists>s'. sessions (run evs w) i = Some s' \<and> lmove\<^sup>*\<^sup>* (view w i s) (view (run evs w) i s')"
  using assms
proof (induction evs arbitrary: w s)
  case Nil
  then show ?case by simp
next
  case (Cons e evs)
  from step_view [OF Cons.prems, of e] obtain s1 where
    s1: "sessions (step e w) i = Some s1"
    and mv: "view (step e w) i s1 = view w i s \<or> lmove (view w i s) (view (step e w) i s1)"
    by blast
  from Cons.IH [OF winv_step [OF Cons.prems(1)] s1] obtain s' where
    s': "sessions (run evs (step e w)) i = Some s'"
    and rest: "lmove\<^sup>*\<^sup>* (view (step e w) i s1) (view (run evs (step e w)) i s')"
    by blast
  from mv rest have "lmove\<^sup>*\<^sup>* (view w i s) (view (run evs (step e w)) i s')"
    by (auto intro: converse_rtranclp_into_rtranclp)
  with s' show ?case by auto
qed

lemma born_view:
  assumes "winv w" "sessions w i = None" "sessions (snd (transcribe_call x t w)) i = Some s'"
  shows "i = next_sid w \<and> s' = born x t (next_obj w) \<and>
     view (snd (transcribe_call x t w)) i s' =
       (born x t (next_obj w), cancelled w t, if cancelled w t then [] else [DisposeEmitter],
        if cancelled w t then [DisposeEmitter] else [])"
proof -
  from assms(2,3) have i: "i = next_sid w" and s': "s' = born x t (next_obj w)"
    by (auto simp: transcribe_call_sessions split: if_splits)
  have "mine i (listeners (tokens w t)) = []"
    unfolding mine_empty using winv_listener [OF assms(1), of i _ t] assms(2) by auto
  moreover have "mine i (timers w) = []"
    unfolding mine_empty using winv_timer [OF assms(1), of i] i by auto
  ultimately show ?thesis
    by (simp add: i s' view_def transcribe_call_listeners transcribe_call_timers)
qed

lemma session_born:
  assumes "winv w" "sessions w i = None" "sessions (step e w) i = Some s'"
  shows "\<exists>x t. step e w = snd (transcribe_call x t w) \<and>
     (e = Transcribe t \<and> x = None \<or> (\<exists>a. e = TranscribeThrowing t a \<and> x = Some a)) \<and>
     i = next_sid w \<and> s' = born x t (next_obj w) \<and>
     view (step e w) i s' =
       (born x t (next_obj w), cancelled w t, if cancelled w t then [] else [DisposeEmitter],
        if cancelled w t then [DisposeEmitter] else [])"
proof (cases e rule: event_cases)
  case (Transcribe t)
  with assms(3) have "sessions (snd (transcribe_call None t w)) i = Some s'" by simp
  from born_view [OF assms(1,2) this] show ?thesis by (auto simp: Transcribe)
next
  case (Throwing t a)
  with assms(3) have "sessions (snd (transcribe_call (Some a) t w)) i = Some s'" by simp
  from born_view [OF assms(1,2) this] show ?thesis by (auto simp: Throwing)
next
  case (Cancel t)
  with assms(2,3) show ?thesis by (simp add: cancel_sessions split: if_splits)
next
  case Tick
  with assms(2,3) show ?thesis by (auto split: list.splits if_splits)
next
  case (Seg j)
  with assms(2,3) show ?thesis
    by (auto simp: step_resume resume_sessions split: if_splits)
qed

lemma lreach_start:
  "lreach (born x t n, True, [], [DisposeEmitter])"
  "lreach (born x t n, False, [DisposeEmitter], [])"
  using lreach.start [of x t n True] lreach.start [of x t n False] by simp_all

lemma reach_view:
  "sessions (run evs init) i = Some s \<Longrightarrow> lreach (view (run evs init) i s)"
proof (induction evs arbitrary: s rule: rev_induct)
  case Nil
  then show ?case by (simp add: init_def)
next
  case (snoc e evs)
  let ?w = "run evs init"
  have inv: "winv ?w" by (simp add: winv_run winv_init)
  from snoc.prems have now: "sessions (step e ?w) i = Some s" by (simp add: run_snoc)
  show ?case
  proof (cases "sessions ?w i")
    case None
    from session_born [OF inv None now] show ?thesis
      by (auto simp: run_snoc intro: lreach_start)
  next
    case (Some s0)
    from step_view [OF inv Some, of e] now
    have "view (step e ?w) i s = view ?w i s0 \<or> lmove (view ?w i s0) (view (step e ?w) i s)"
      by auto
    with snoc.IH [OF Some] show ?thesis
      by (auto simp: run_snoc intro: lreach.move)
  qed
qed

subsection \<open>What the handlers leave alone\<close>

lemma onmessage_fields [simp]:
  "effects (onmessage v s) = effects s"
  "pc (onmessage v s) = pc s"
  "node (onmessage v s) = node s"
  "disposed (onmessage v s) = disposed s"
  "microphoneDevice (onmessage v s) = microphoneDevice s"
  "recordingDone (onmessage v s) = recordingDone s"
  "resources (onmessage v s) = resources s"
  "microphoneStream (onmessage v s) = microphoneStream s"
  "audioContext (onmessage v s) = audioContext s"
  "voiceTranscriptionTarget (onmessage v s) = voiceTranscriptionTarget s"
  "sharedProcessConnection (onmessage v s) = sharedProcessConnection s"
  by (cases v; simp add: fire_def resources_def)+

lemma onmessage_delivered:
  "delivered (onmessage v s) =
     (if disposed s then delivered s else delivered s @ (case v of JString x \<Rightarrow> [x] | _ \<Rightarrow> []))"
  by (cases v) (simp_all add: fire_def)

lemma run_listener_fields [simp]:
  "pc (run_listener l s) = pc s"
  "node (run_listener l s) = node s"
  "delivered (run_listener l s) = delivered s"
  "microphoneDevice (run_listener l s) = microphoneDevice s"
  "disposed (run_listener l s) = (disposed s \<or> l = DisposeEmitter)"
  "resources (run_listener l s) = resources s"
  "microphoneStream (run_listener l s) = microphoneStream s"
  "audioContext (run_listener l s) = audioContext s"
  "voiceTranscriptionTarget (run_listener l s) = voiceTranscriptionTarget s"
  "sharedProcessConnection (run_listener l s) = sharedProcessConnection s"
  by (cases l; simp add: resources_def)+

lemma fire_all_fields [simp]:
  "pc (fire_all ls s) = pc s"
  "node (fire_all ls s) = node s"
  "delivered (fire_all ls s) = delivered s"
  "microphoneDevice (fire_all ls s) = microphoneDevice s"
  "disposed (fire_all ls s) = (disposed s \<or> DisposeEmitter \<in> set ls)"
  "resources (fire_all ls s) = resources s"
  "microphoneStream (fire_all ls s) = microphoneStream s"
  "audioContext (fire_all ls s) = audioContext s"
  "voiceTranscriptionTarget (fire_all ls s) = voiceTranscriptionTarget s"
  "sharedProcessConnection (fire_all ls s) = sharedProcessConnection s"
  by (induction ls arbitrary: s; auto)+

lemma born_fields [simp]:
  "pc (born x t n) = (case x of None \<Rightarrow> AwaitMic | Some e \<Rightarrow> Rejected e)"
  "node (born x t n) = False"
  "disposed (born x t n) = False"
  "delivered (born x t n) = []"
  "recordingDone (born x t n) = False"
  "effects (born x t n) =
     (case x of None \<Rightarrow> [Report ''Getting microphone ready...'', GetUserMedia]
      | Some e \<Rightarrow> [Report ''Getting microphone ready...''])"
  "resources (born x t n) = [n]"
  by (cases x; simp add: born_simps new_session_def log_def resources_def)+

subsection \<open>Invariants of a session\<close>

lemma lreach_flags:
  "lreach v \<Longrightarrow>
   (case v of (s, c, L, T) \<Rightarrow>
      (c \<longrightarrow> L = []) \<and> (\<not> c \<longrightarrow> T = [] \<and> \<not> disposed s) \<and> Teardown \<notin> set T \<and>
      (pc s = Returned \<longrightarrow> c) \<and> pc s \<noteq> Idle)"
proof (induction rule: lreach.induct)
  case (start x t n c)
  show ?case by (cases x) simp_all
next
  case (move v v')
  from move.hyps(2) move.IH show ?case
  proof (cases rule: lmove.cases)
    case (seg e c n s s' ls n' L T)
    with move.IH show ?thesis
      by (cases e) (auto simp: segment_defs Let_def split: if_splits)
  next
    case (cancel s L T)
    with move.IH show ?thesis by simp
  next
    case (timer s c L l T)
    with move.IH show ?thesis by auto
  qed
qed

lemma run_listener_setup_effects [simp]:
  "NewAudioContext \<in> set (effects (run_listener l s)) \<longleftrightarrow> NewAudioContext \<in> set (effects s)"
  "PostStart \<in> set (effects (run_listener l s)) \<longleftrightarrow> PostStart \<in> set (effects s)"
  by (cases l; auto simp: teardown_effects_def)+

lemma fire_all_setup_effects [simp]:
  "NewAudioContext \<in> set (effects (fire_all ls s)) \<longleftrightarrow> NewAudioContext \<in> set (effects s)"
  "PostStart \<in> set (effects (fire_all ls s)) \<longleftrightarrow> PostStart \<in> set (effects s)"
  by (induction ls arbitrary: s; simp)+

text \<open>The outcomes of a segment, whichever event ran it.\<close>

lemma getUserMedia_resolved_out:
  "getUserMedia_resolved trs c n s = (s', ls, n') \<Longrightarrow>
     s' = s \<and> ls = [] \<and> n' = n \<or>
     pc s = AwaitMic \<and> c \<and>
       s' = s\<lparr>microphoneDevice := trs, microphoneStream := Some n, pc := Returned\<rparr> \<and>
       ls = [] \<and> n' = Suc n \<or>
     pc s = AwaitMic \<and> \<not> c \<and>
       s' = s\<lparr>microphoneDevice := trs, microphoneStream := Some n,
              effects := effects s @ [NewAudioContext, CreateMediaStreamSource, AddModule],
              audioContext := Some (Suc n), pc := AwaitModule\<rparr> \<and>
       ls = [Teardown] \<and> n' = Suc (Suc n)"
  by (auto simp: getUserMedia_resolved_def log_def Let_def split: if_splits)

lemma addModule_resolved_out:
  "addModule_resolved c n s = (s', ls, n') \<Longrightarrow>
     s' = s \<and> ls = [] \<and> n' = n \<or>
     pc s = AwaitModule \<and> c \<and> s' = s\<lparr>pc := Returned\<rparr> \<and> ls = [] \<and> n' = n \<or>
     pc s = AwaitModule \<and> \<not> c \<and>
       s' = s\<lparr>effects := effects s @ [NewWorkletNode, CreateRawConnection], node := True,
              voiceTranscriptionTarget := Some n, pc := AwaitConn\<rparr> \<and>
       ls = [] \<and> n' = Suc n"
  by (auto simp: addModule_resolved_def log_def split: if_splits)

lemma createRawConnection_resolved_out:
  "createRawConnection_resolved c n s = (s', ls, n') \<Longrightarrow>
     s' = s \<and> ls = [] \<and> n' = n \<or>
     pc s = AwaitConn \<and>
       s' = s\<lparr>effects := effects s @ [PostStart], sharedProcessConnection := Some n,
              pc := AwaitStart\<rparr> \<and>
       ls = [StopWorklet] \<and> n' = Suc n"
  by (auto simp: createRawConnection_resolved_def log_def split: if_splits)

lemma start_resolved_out:
  "start_resolved c n s = (s', ls, n') \<Longrightarrow>
     s' = s \<and> ls = [] \<and> n' = n \<or>
     pc s = AwaitStart \<and> c \<and> s' = s\<lparr>pc := Returned\<rparr> \<and> ls = [] \<and> n' = n \<or>
     pc s = AwaitStart \<and> \<not> c \<and>
       s' = s\<lparr>effects := effects s @ [ConnectSource, Report ''Recording from microphone...''],
              pc := Recording\<rparr> \<and>
       ls = [] \<and> n' = n"
  by (auto simp: start_resolved_def log_def split: if_splits)

lemma rejected_out:
  "rejected at r c n s = (s', ls, n') \<Longrightarrow>
     s' = s \<and> ls = [] \<and> n' = n \<or> pc s = at \<and> s' = s\<lparr>pc := Rejected r\<rparr> \<and> ls = [] \<and> n' = n"
  by (auto simp: rejected_def split: if_splits)

lemma port_message_out:
  "port_message v c n s = (s', ls, n') \<Longrightarrow>
     s' = s \<and> ls = [] \<and> n' = n \<or> node s \<and> s' = onmessage v s \<and> ls = [] \<and> n' = n"
  by (auto simp: port_message_def split: if_splits)

lemma segment_cases [consumes 1, case_names idle mic_cancelled mic module_cancelled
    "module" conn start_cancelled started reject message]:
  assumes "segment e c n s = (s', ls, n')"
  obtains
    "s' = s" "ls = []" "n' = n"
  | trs where "pc s = AwaitMic" "c"
      "s' = s\<lparr>microphoneDevice := trs, microphoneStream := Some n, pc := Returned\<rparr>"
      "ls = []" "n' = Suc n"
  | trs where "pc s = AwaitMic" "\<not> c"
      "s' = s\<lparr>microphoneDevice := trs, microphoneStream := Some n,
              effects := effects s @ [NewAudioContext, CreateMediaStreamSource, AddModule],
              audioContext := Some (Suc n), pc := AwaitModule\<rparr>"
      "ls = [Teardown]" "n' = Suc (Suc n)"
  | "pc s = AwaitModule" "c" "s' = s\<lparr>pc := Returned\<rparr>" "ls = []" "n' = n"
  | "pc s = AwaitModule" "\<not> c"
      "s' = s\<lparr>effects := effects s @ [NewWorkletNode, CreateRawConnection], node := True,
              voiceTranscriptionTarget := Some n, pc := AwaitConn\<rparr>"
      "ls = []" "n' = Suc n"
  | "pc s = AwaitConn"
      "s' = s\<lparr>effects := effects s @ [PostStart], sharedProcessConnection := Some n,
              pc := AwaitStart\<rparr>"
      "ls = [StopWorklet]" "n' = Suc n"
  | "pc s = AwaitStart" "c" "s' = s\<lparr>pc := Returned\<rparr>" "ls = []" "n' = n"
  | "pc s = AwaitStart" "\<not> c"
      "s' = s\<lparr>effects := effects s @ [ConnectSource, Report ''Recording from microphone...''],
              pc := Recording\<rparr>"
      "ls = []" "n' = n"
  | r where "pc s = AwaitMic \<or> pc s = AwaitModule \<or> pc s = AwaitConn"
      "s' = s\<lparr>pc := Rejected r\<rparr>" "ls = []" "n' = n"
  | v where "node s" "s' = onmessage v s" "ls = []" "n' = n"
proof (cases e)
  case (Transcribe t)
  with assms that(1) show ?thesis by simp
next
  case (TranscribeThrowing t a)
  with assms that(1) show ?thesis by simp
next
  case (Cancel t)
  with assms that(1) show ?thesis by simp
next
  case Tick
  with assms that(1) show ?thesis by simp
next
  case (MicResolved i trs)
  with assms have "getUserMedia_resolved trs c n s = (s', ls, n')" by simp
  from getUserMedia_resolved_out [OF this] that(1,2,3) show ?thesis by blast
next
  case (MicRejected i r)
  with assms have "rejected AwaitMic r c n s = (s', ls, n')" by simp
  from rejected_out [OF this] that(1,9) show ?thesis by blast
next
  case (ModuleResolved i)
  with assms have "addModule_resolved c n s = (s', ls, n')" by simp
  from addModule_resolved_out [OF this] that(1,4,5) show ?thesis by blast
next
  case (ModuleRejected i r)
  with assms have "rejected AwaitModule r c n s = (s', ls, n')" by simp
  from rejected_out [OF this] that(1,9) show ?thesis by blast
next
  case (ConnResolved i)
  with assms have "createRawConnection_resolved c n s = (s', ls, n')" by simp
  from createRawConnection_resolved_out [OF this] that(1,6) show ?thesis by blast
next
  case (ConnRejected i r)
  with assms have "rejected AwaitConn r c n s = (s', ls, n')" by simp
  from rejected_out [OF this] that(1,9) show ?thesis by blast
next
  case (StartResolved i)
  with assms have "start_resolved c n s = (s', ls, n')" by simp
  from start_resolved_out [OF this] that(1,7,8) show ?thesis by blast
next
  case (Message i v)
  with assms have "port_message v c n s = (s', ls, n')" by simp
  from port_message_out [OF this] that(1,10) show ?thesis by blast
qed

lemma lreach_progress:
  "lreach v \<Longrightarrow>
   (case v of (s, c, L, T) \<Rightarrow>
      (\<not> c \<longrightarrow> L = registered s) \<and>
      (pc s = AwaitMic \<longrightarrow> effects s = [Report ''Getting microphone ready...'', GetUserMedia]) \<and>
      (pc s = AwaitModule \<or> pc s = AwaitConn \<longrightarrow>
         NewAudioContext \<in> set (effects s) \<and> PostStart \<notin> set (effects s)) \<and>
      (pc s = AwaitMic \<or> pc s = AwaitModule \<or> pc s = AwaitConn \<longrightarrow> StopWorklet \<notin> set T))"
proof (induction rule: lreach.induct)
  case (start x t n c)
  show ?case by (cases x) (simp_all add: registered_def)
next
  case (move v v')
  note flags = lreach_flags [OF move.hyps(1)]
  from move.hyps(2) show ?case
  proof (cases rule: lmove.cases)
    case (seg e c n s s' ls n' L T)
    from seg(3) show ?thesis
    proof (cases rule: segment_cases)
      case idle
      with move.IH seg(1,2) show ?thesis by simp
    next
      case (mic_cancelled trs)
      with move.IH seg(1,2) show ?thesis by simp
    next
      case (mic trs)
      with move.IH seg(1,2) flags show ?thesis by (simp add: registered_def)
    next
      case module_cancelled
      with move.IH seg(1,2) show ?thesis by simp
    next
      case "module"
      with move.IH seg(1,2) show ?thesis by (simp add: registered_def)
    next
      case conn
      with move.IH seg(1,2) show ?thesis by (simp add: registered_def)
    next
      case start_cancelled
      with move.IH seg(1,2) show ?thesis by simp
    next
      case started
      with move.IH seg(1,2) show ?thesis by (simp add: registered_def)
    next
      case (reject r)
      with move.IH seg(1,2) show ?thesis by (auto simp: registered_def)
    next
      case (message x)
      with move.IH seg(1,2) show ?thesis by (simp add: registered_def)
    qed
  next
    case (cancel s L T)
    with move.IH flags show ?thesis
      by (auto simp: registered_def teardown_effects_def)
  next
    case (timer s c L l T)
    with move.IH flags show ?thesis
      by (cases l) (auto simp: registered_def teardown_effects_def)
  qed
qed

lemma lreach_node:
  "lreach v \<Longrightarrow>
   (case v of (s, c, L, T) \<Rightarrow>
      (pc s = AwaitMic \<or> pc s = AwaitModule \<longrightarrow> \<not> node s) \<and>
      (\<not> node s \<longrightarrow> delivered s = []) \<and>
      (c \<longrightarrow> disposed s \<or> \<not> node s))"
proof (induction rule: lreach.induct)
  case (start x t n c)
  show ?case by (cases x) simp_all
next
  case (move v v')
  note flags = lreach_flags [OF move.hyps(1)]
  note prog = lreach_progress [OF move.hyps(1)]
  from move.hyps(2) show ?case
  proof (cases rule: lmove.cases)
    case (seg e c n s s' ls n' L T)
    from seg(3) show ?thesis
    proof (cases rule: segment_cases)
      case (reject r)
      with move.IH seg(1,2) show ?thesis by auto
    next
      case (message x)
      with move.IH seg(1,2) show ?thesis by (auto simp: onmessage_delivered)
    qed (use move.IH seg(1,2) in simp_all)
  next
    case (cancel s L T)
    with move.IH prog show ?thesis
      by (auto simp: registered_def)
  next
    case (timer s c L l T)
    with move.IH show ?thesis by auto
  qed
qed

subsection \<open>After cancellation the emitter is mute\<close>

lemma lmove_muted:
  assumes "lmove v v'" "fst (snd v)" "disposed (fst v) \<or> \<not> node (fst v)"
  shows "fst (snd v') \<and> (disposed (fst v') \<or> \<not> node (fst v')) \<and>
    delivered (fst v') = delivered (fst v)"
  using assms(1)
proof (cases rule: lmove.cases)
  case (seg e c n s s' ls n' L T)
  from seg(3) show ?thesis
  proof (cases rule: segment_cases)
    case (message x)
    with assms(2,3) seg(1,2) show ?thesis by (auto simp: onmessage_delivered)
  qed (use assms(2,3) seg(1,2) in auto)
next
  case (cancel s L T)
  with assms(2) show ?thesis by simp
next
  case (timer s c L l T)
  with assms(2,3) show ?thesis by auto
qed

lemma lmoves_muted:
  assumes "lmove\<^sup>*\<^sup>* v v'" "fst (snd v)" "disposed (fst v) \<or> \<not> node (fst v)"
  shows "fst (snd v') \<and> (disposed (fst v') \<or> \<not> node (fst v')) \<and>
    delivered (fst v') = delivered (fst v)"
  using assms
proof (induction rule: rtranclp_induct)
  case base
  then show ?case by simp
next
  case (step y z)
  from step.IH [OF step.prems] lmove_muted [OF step.hyps(2)] show ?case by simp
qed

lemma view_fields [simp]:
  "fst (view w i s) = s"
  "fst (snd (view w i s)) = cancelled w (token s)"
  by (simp_all add: view_def)

lemmas model_defs = run_def init_def fresh_token_def cancelled_def onCancellationRequested_def
  fire_def teardown_effects_def upd_def invoke_def cancel_def new_session_def log_def
  doTranscribe_def withProgress_def async_function_def callback_start_def transcribe_call_def
  transcribe_def resume_def getUserMedia_resolved_def addModule_resolved_def
  createRawConnection_resolved_def start_resolved_def rejected_def port_message_def
  task_promise_def

text \<open>
  C4. The stream ends with cancellation: in every reachable state in which the token of a
  session is cancelled, whatever happens afterwards (messages of the worklet, timers,
  settling promises, other sessions), a subscriber of the session's event receives
  nothing more.
\<close>

theorem stream_ends_on_cancellation:
  assumes "sessions (run pre init) i = Some s"
    and "cancelled (run pre init) (token s)"
    and "sessions (run evs (run pre init)) i = Some s'"
  shows "delivered s' = delivered s"
proof -
  let ?w = "run pre init"
  have inv: "winv ?w" by (simp add: winv_run winv_init)
  from lreach_node [OF reach_view [OF assms(1)]] assms(2)
  have m: "disposed s \<or> \<not> node s" by (simp add: view_def)
  from run_view [OF inv assms(1), of evs] assms(3)
  have "lmove\<^sup>*\<^sup>* (view ?w i s) (view (run evs ?w) i s')" by auto
  from lmoves_muted [OF this] assms(2) m show ?thesis by simp
qed

theorem stream_ends_on_cancellation_witness:
  "sessions (run [Transcribe 0, MicResolved 0 [0], ModuleResolved 0, ConnResolved 0,
       StartResolved 0, Message 0 (JString ''hello''), Cancel 0] init) 0 \<noteq> None \<and>
   cancelled (run [Transcribe 0, MicResolved 0 [0], ModuleResolved 0, ConnResolved 0,
       StartResolved 0, Message 0 (JString ''hello''), Cancel 0] init) 0 \<and>
   delivered (the (sessions (run [Message 0 (JString ''late''), Tick]
     (run [Transcribe 0, MicResolved 0 [0], ModuleResolved 0, ConnResolved 0,
       StartResolved 0, Message 0 (JString ''hello''), Cancel 0] init)) 0)) = [''hello'']"
  using stream_ends_on_cancellation [of
      "[Transcribe 0, MicResolved 0 [0], ModuleResolved 0, ConnResolved 0,
        StartResolved 0, Message 0 (JString ''hello''), Cancel 0]" 0
      "the (sessions (run [Transcribe 0, MicResolved 0 [0], ModuleResolved 0, ConnResolved 0,
        StartResolved 0, Message 0 (JString ''hello''), Cancel 0] init) 0)"
      "[Message 0 (JString ''late''), Tick]"
      "the (sessions (run [Message 0 (JString ''late''), Tick]
        (run [Transcribe 0, MicResolved 0 [0], ModuleResolved 0, ConnResolved 0,
          StartResolved 0, Message 0 (JString ''hello''), Cancel 0] init)) 0)"]
  by (simp add: model_defs)

subsection \<open>Closed sets of views\<close>

lemma lmove_quiet:
  assumes "lmove v v'" "fst (snd v)"
    and "pc (fst v) = AwaitMic \<or> pc (fst v) = Returned \<or> (\<exists>r. pc (fst v) = Rejected r)"
    and "set (snd (snd (snd v))) \<subseteq> {DisposeEmitter}"
  shows "fst (snd v') \<and>
    (pc (fst v') = AwaitMic \<or> pc (fst v') = Returned \<or> (\<exists>r. pc (fst v') = Rejected r)) \<and>
    set (snd (snd (snd v'))) \<subseteq> {DisposeEmitter} \<and>
    effects (fst v') = effects (fst v)"
  using assms(1)
proof (cases rule: lmove.cases)
  case (seg e c n s s' ls n' L T)
  from seg(3) show ?thesis
    by (cases rule: segment_cases) (use assms(2,3,4) seg(1,2) in auto)
next
  case (cancel s L T)
  with assms(2) show ?thesis by simp
next
  case (timer s c L l T)
  with assms(2,3,4) show ?thesis by auto
qed

lemma lmoves_quiet:
  assumes "lmove\<^sup>*\<^sup>* v v'" "fst (snd v)"
    and "pc (fst v) = AwaitMic \<or> pc (fst v) = Returned \<or> (\<exists>r. pc (fst v) = Rejected r)"
    and "set (snd (snd (snd v))) \<subseteq> {DisposeEmitter}"
  shows "fst (snd v') \<and>
    (pc (fst v') = AwaitMic \<or> pc (fst v') = Returned \<or> (\<exists>r. pc (fst v') = Rejected r)) \<and>
    set (snd (snd (snd v'))) \<subseteq> {DisposeEmitter} \<and>
    effects (fst v') = effects (fst v)"
  using assms
proof (induction rule: rtranclp_induct)
  case base
  then show ?case by simp
next
  case (step y z)
  from step.IH [OF step.prems] lmove_quiet [OF step.hyps(2)] show ?case by simp
qed

lemma lmove_settled:
  assumes "lmove v v'" "pc (fst v) = Returned \<or> (\<exists>r. pc (fst v) = Rejected r)"
  shows "pc (fst v') = pc (fst v) \<and> node (fst v') = node (fst v) \<and>
    microphoneDevice (fst v') = microphoneDevice (fst v) \<and>
    (\<not> node (fst v) \<longrightarrow> delivered (fst v') = delivered (fst v))"
  using assms(1)
proof (cases rule: lmove.cases)
  case (seg e c n s s' ls n' L T)
  from seg(3) show ?thesis
    by (cases rule: segment_cases) (use assms(2) seg(1,2) in auto)
next
  case (cancel s L T)
  then show ?thesis by simp
next
  case (timer s c L l T)
  then show ?thesis by simp
qed

lemma lmoves_settled:
  assumes "lmove\<^sup>*\<^sup>* v v'" "pc (fst v) = Returned \<or> (\<exists>r. pc (fst v) = Rejected r)"
  shows "pc (fst v') = pc (fst v) \<and> node (fst v') = node (fst v) \<and>
    microphoneDevice (fst v') = microphoneDevice (fst v) \<and>
    (\<not> node (fst v) \<longrightarrow> delivered (fst v') = delivered (fst v))"
  using assms
proof (induction rule: rtranclp_induct)
  case base
  then show ?case by simp
next
  case (step y z)
  from step.IH [OF step.prems] have "pc (fst y) = Returned \<or> (\<exists>r. pc (fst y) = Rejected r)"
    using step.prems by auto
  from lmove_settled [OF step.hyps(2) this] step.IH [OF step.prems] show ?case by simp
qed

lemma view_timers [simp]: "snd (snd (snd (view w i s))) = mine i (timers w)"
  by (simp add: view_def)

lemma view_listeners [simp]:
  "fst (snd (snd (view w i s))) = mine i (listeners (tokens w (token s)))"
  by (simp add: view_def)

lemma reachable_winv [simp]: "winv (run pre init)"
  by (simp add: winv_run winv_init)

subsection \<open>The relay of fragments\<close>

lemma onmessage_live:
  "\<not> disposed s \<Longrightarrow>
   onmessage v s = s\<lparr>delivered := delivered s @ (case v of JString x \<Rightarrow> [x] | _ \<Rightarrow> [])\<rparr>"
  by (cases v) (simp_all add: fire_def)

lemma step_message:
  "sessions w i = Some s \<Longrightarrow>
   sessions (step (Message i v) w) i = Some (if node s then onmessage v s else s)"
  by (simp add: resume_sessions port_message_def)

lemma messages_relayed:
  "sessions w i = Some s \<Longrightarrow> node s \<Longrightarrow> \<not> disposed s \<Longrightarrow>
   sessions (run (map (Message i) vs) w) i =
     Some (s\<lparr>delivered := delivered s @ [x. JString x \<leftarrow> vs]\<rparr>)"
proof (induction vs arbitrary: w s)
  case Nil
  then show ?case by simp
next
  case (Cons v vs)
  let ?s1 = "s\<lparr>delivered := delivered s @ (case v of JString x \<Rightarrow> [x] | _ \<Rightarrow> [])\<rparr>"
  have s1: "sessions (step (Message i v) w) i = Some ?s1"
    using step_message [OF Cons.prems(1), of v] Cons.prems(2) onmessage_live [OF Cons.prems(3), of v]
    by (simp del: step.simps)
  have "node ?s1" "\<not> disposed ?s1" using Cons.prems by simp_all
  from Cons.IH [OF s1 this] show ?case by simp
qed

text \<open>
  C5. The relay. In a reachable state in which the worklet node of a session exists and
  the session's token is not cancelled, a sequence of messages from the port changes
  nothing of the session but what its subscriber has received, and appends to that exactly
  the payloads that are strings, unchanged and in arrival order; a payload that is not a
  string adds nothing. With the messages \<open>hello\<close> then \<open>world\<close> the
  subscriber receives these two, in this order.
\<close>

theorem fragment_relay:
  assumes "sessions (run pre init) i = Some s"
    and "node s"
    and "\<not> cancelled (run pre init) (token s)"
  shows "sessions (run (map (Message i) vs) (run pre init)) i =
    Some (s\<lparr>delivered := delivered s @ [x. JString x \<leftarrow> vs]\<rparr>)"
proof -
  from lreach_flags [OF reach_view [OF assms(1)]] assms(3)
  have "\<not> disposed s" by (simp add: view_def)
  from messages_relayed [OF assms(1,2) this] show ?thesis .
qed

theorem fragment_relay_witness:
  "sessions (run [Transcribe 0, MicResolved 0 [0], ModuleResolved 0, ConnResolved 0,
       StartResolved 0] init) 0 \<noteq> None \<and>
   node (the (sessions (run [Transcribe 0, MicResolved 0 [0], ModuleResolved 0, ConnResolved 0,
       StartResolved 0] init) 0)) \<and>
   \<not> cancelled (run [Transcribe 0, MicResolved 0 [0], ModuleResolved 0, ConnResolved 0,
       StartResolved 0] init) 0 \<and>
   delivered (the (sessions (run (map (Message 0) [JString ''hello'', JString ''world''])
     (run [Transcribe 0, MicResolved 0 [0], ModuleResolved 0, ConnResolved 0,
       StartResolved 0] init)) 0)) = [''hello'', ''world'']"
  using fragment_relay [of
      "[Transcribe 0, MicResolved 0 [0], ModuleResolved 0, ConnResolved 0, StartResolved 0]" 0
      "the (sessions (run [Transcribe 0, MicResolved 0 [0], ModuleResolved 0, ConnResolved 0,
        StartResolved 0] init) 0)"
      "[JString ''hello'', JString ''world'']"]
  by (simp add: model_defs)

subsection \<open>Cancellation while the microphone is being acquired\<close>

text \<open>
  C6. If the token of a session is cancelled while the session waits for
  \<^verbatim>\<open>getUserMedia\<close>, then whatever happens afterwards the session creates no audio
  context and no source node, loads no module, creates no worklet node, opens no
  side-channel connection, posts no start command and connects no source.
\<close>

theorem no_graph_when_cancelled_before_microphone:
  assumes "sessions (run pre init) i = Some s"
    and "pc s = AwaitMic"
    and "cancelled (run pre init) (token s)"
    and "sessions (run evs (run pre init)) i = Some s'"
  shows "NewAudioContext \<notin> set (effects s') \<and> CreateMediaStreamSource \<notin> set (effects s') \<and>
    AddModule \<notin> set (effects s') \<and> NewWorkletNode \<notin> set (effects s') \<and>
    CreateRawConnection \<notin> set (effects s') \<and> PostStart \<notin> set (effects s') \<and>
    ConnectSource \<notin> set (effects s')"
proof -
  let ?w = "run pre init"
  note r = reach_view [OF assms(1)]
  from lreach_progress [OF r] assms(2)
  have e: "effects s = [Report ''Getting microphone ready...'', GetUserMedia]"
    and nw: "StopWorklet \<notin> set (mine i (timers ?w))"
    by (simp_all add: view_def)
  from lreach_flags [OF r] have nt: "Teardown \<notin> set (mine i (timers ?w))"
    by (simp add: view_def)
  have T: "set (mine i (timers ?w)) \<subseteq> {DisposeEmitter}"
  proof
    fix l assume "l \<in> set (mine i (timers ?w))"
    with nw nt show "l \<in> {DisposeEmitter}" by (cases l) auto
  qed
  from run_view [OF reachable_winv assms(1), of evs] assms(4)
  have "lmove\<^sup>*\<^sup>* (view ?w i s) (view (run evs ?w) i s')" by auto
  from lmoves_quiet [OF this] assms(2,3) T have "effects s' = effects s" by simp
  with e show ?thesis by simp
qed

theorem no_graph_when_cancelled_before_microphone_witness:
  "sessions (run [Transcribe 0, Cancel 0] init) 0 \<noteq> None \<and>
   pc (the (sessions (run [Transcribe 0, Cancel 0] init) 0)) = AwaitMic \<and>
   cancelled (run [Transcribe 0, Cancel 0] init) 0 \<and>
   sessions (run [MicResolved 0 [0], ModuleResolved 0, ConnResolved 0, StartResolved 0, Tick]
     (run [Transcribe 0, Cancel 0] init)) 0 \<noteq> None \<and>
   NewAudioContext \<notin> set (effects (the (sessions
     (run [MicResolved 0 [0], ModuleResolved 0, ConnResolved 0, StartResolved 0, Tick]
       (run [Transcribe 0, Cancel 0] init)) 0))) \<and>
   CreateRawConnection \<notin> set (effects (the (sessions
     (run [MicResolved 0 [0], ModuleResolved 0, ConnResolved 0, StartResolved 0, Tick]
       (run [Transcribe 0, Cancel 0] init)) 0)))"
  using no_graph_when_cancelled_before_microphone [of "[Transcribe 0, Cancel 0]" 0
      "the (sessions (run [Transcribe 0, Cancel 0] init) 0)"
      "[MicResolved 0 [0], ModuleResolved 0, ConnResolved 0, StartResolved 0, Tick]"
      "the (sessions (run [MicResolved 0 [0], ModuleResolved 0, ConnResolved 0,
         StartResolved 0, Tick] (run [Transcribe 0, Cancel 0] init)) 0)"]
  by (simp add: model_defs)

subsection \<open>Rejections\<close>

lemma step_rejected:
  "sessions w i = Some s \<Longrightarrow>
   sessions (step (MicRejected i r) w) i = Some (if pc s = AwaitMic then s\<lparr>pc := Rejected r\<rparr> else s) \<and>
   sessions (step (ModuleRejected i r) w) i =
     Some (if pc s = AwaitModule then s\<lparr>pc := Rejected r\<rparr> else s) \<and>
   sessions (step (ConnRejected i r) w) i = Some (if pc s = AwaitConn then s\<lparr>pc := Rejected r\<rparr> else s)"
  by (simp add: resume_sessions rejected_def)

lemma rejection_stays:
  assumes "winv w" "sessions w i = Some s" "pc s = Rejected r"
    and "sessions (run evs w) i = Some s'"
  shows "pc s' = Rejected r \<and> (\<not> node s \<longrightarrow> delivered s' = delivered s)"
proof -
  from run_view [OF assms(1,2), of evs] assms(4)
  have "lmove\<^sup>*\<^sup>* (view w i s) (view (run evs w) i s')" by auto
  from lmoves_settled [OF this] assms(3) show ?thesis by simp
qed

text \<open>
  C8. A session waits for the microphone, or for the worklet module, and the awaited
  promise rejects with reason \<open>r\<close>. Then, whatever happens afterwards, the promise that
  the progress wrapper holds for the session is rejected with \<open>r\<close>, and the subscriber
  of the session's event has received nothing: no fragment, and the emitter has no
  other kind of event.
\<close>

theorem setup_rejection_propagates:
  assumes "sessions (run pre init) i = Some s"
    and "pc s = AwaitMic \<and> e = MicRejected i r \<or> pc s = AwaitModule \<and> e = ModuleRejected i r"
    and "sessions (run evs (step e (run pre init))) i = Some s'"
  shows "task_promise s' = Failed r \<and> delivered s' = []"
proof -
  let ?w = "run pre init"
  from lreach_node [OF reach_view [OF assms(1)]] assms(2)
  have n: "\<not> node s" and d: "delivered s = []" by (auto simp: view_def)
  have s1: "sessions (step e ?w) i = Some (s\<lparr>pc := Rejected r\<rparr>)"
    using step_rejected [OF assms(1), of r] assms(2) by (auto simp del: step.simps)
  have "pc s' = Rejected r \<and> delivered s' = []"
    using rejection_stays [OF winv_step [OF reachable_winv] s1 _ assms(3)] n d by simp
  then show ?thesis by (simp add: task_promise_def)
qed

theorem setup_rejection_propagates_witness:
  "sessions (run [Transcribe 0] init) 0 \<noteq> None \<and>
   pc (the (sessions (run [Transcribe 0] init) 0)) = AwaitMic \<and>
   sessions (run [Message 0 (JString ''x''), Cancel 0]
     (step (MicRejected 0 NotAllowedError) (run [Transcribe 0] init))) 0 \<noteq> None \<and>
   task_promise (the (sessions (run [Message 0 (JString ''x''), Cancel 0]
     (step (MicRejected 0 NotAllowedError) (run [Transcribe 0] init))) 0)) = Failed NotAllowedError \<and>
   delivered (the (sessions (run [Message 0 (JString ''x''), Cancel 0]
     (step (MicRejected 0 NotAllowedError) (run [Transcribe 0] init))) 0)) = []"
  using setup_rejection_propagates [of "[Transcribe 0]" 0
      "the (sessions (run [Transcribe 0] init) 0)" "MicRejected 0 NotAllowedError" NotAllowedError
      "[Message 0 (JString ''x''), Cancel 0]"
      "the (sessions (run [Message 0 (JString ''x''), Cancel 0]
         (step (MicRejected 0 NotAllowedError) (run [Transcribe 0] init))) 0)"]
  by (simp add: model_defs)

text \<open>
  The rejection of the side-channel connection reaches the progress wrapper in the same
  way. By then the worklet node exists and listens on its port.
\<close>

lemma side_channel_rejection_propagates:
  assumes "sessions (run pre init) i = Some s" "pc s = AwaitConn"
    and "sessions (run evs (step (ConnRejected i r) (run pre init))) i = Some s'"
  shows "task_promise s' = Failed r"
proof -
  have s1: "sessions (step (ConnRejected i r) (run pre init)) i = Some (s\<lparr>pc := Rejected r\<rparr>)"
    using step_rejected [OF assms(1), of r] assms(2) by (auto simp del: step.simps)
  have "pc s' = Rejected r"
    using rejection_stays [OF winv_step [OF reachable_winv] s1 _ assms(3)] by simp
  then show ?thesis by (simp add: task_promise_def)
qed

subsection \<open>Cancellation before the microphone resolves\<close>

lemma step_mic_cancelled:
  assumes "sessions w i = Some s" "pc s = AwaitMic" "cancelled w (token s)"
  shows "sessions (step (MicResolved i trs) w) i =
    Some (s\<lparr>microphoneDevice := trs, microphoneStream := Some (next_obj w), pc := Returned\<rparr>)"
  using assms by (simp add: resume_sessions getUserMedia_resolved_def)

lemma returned_stays:
  assumes "winv w" "sessions w i = Some s" "pc s = Returned"
  shows "\<exists>s'. sessions (run evs w) i = Some s' \<and> pc s' = Returned \<and>
    microphoneDevice s' = microphoneDevice s"
proof -
  from run_view [OF assms(1,2), of evs] obtain s' where
    s': "sessions (run evs w) i = Some s'" and
    mv: "lmove\<^sup>*\<^sup>* (view w i s) (view (run evs w) i s')" by blast
  from lmoves_settled [OF mv] assms(3) s' show ?thesis by simp
qed

lemma quiet_timers:
  assumes "sessions (run pre init) i = Some s" "pc s = AwaitMic"
  shows "effects s = [Report ''Getting microphone ready...'', GetUserMedia]"
    and "set (mine i (timers (run pre init))) \<subseteq> {DisposeEmitter}"
proof -
  note r = reach_view [OF assms(1)]
  from lreach_progress [OF r] assms(2)
  show "effects s = [Report ''Getting microphone ready...'', GetUserMedia]"
    by (simp add: view_def)
  from lreach_progress [OF r] assms(2)
  have nw: "StopWorklet \<notin> set (mine i (timers (run pre init)))" by (simp add: view_def)
  from lreach_flags [OF r] have nt: "Teardown \<notin> set (mine i (timers (run pre init)))"
    by (simp add: view_def)
  show "set (mine i (timers (run pre init))) \<subseteq> {DisposeEmitter}"
  proof
    fix l assume "l \<in> set (mine i (timers (run pre init)))"
    with nw nt show "l \<in> {DisposeEmitter}" by (cases l) auto
  qed
qed

lemma early_cancellation:
  assumes "sessions (run pre init) i = Some s" "pc s = AwaitMic"
    and "cancelled (run pre init) (token s)"
  shows "\<exists>s'. sessions (run evs (run pre init)) i = Some s' \<and>
      effects s' = [Report ''Getting microphone ready...'', GetUserMedia] \<and> delivered s' = []"
    and "\<exists>s'. sessions (run (MicResolved i trs # evs) (run pre init)) i = Some s' \<and>
      pc s' = Returned \<and> microphoneDevice s' = trs"
proof -
  let ?w = "run pre init"
  from run_view [OF reachable_winv assms(1), of evs] obtain s' where
    s': "sessions (run evs ?w) i = Some s'" and
    mv: "lmove\<^sup>*\<^sup>* (view ?w i s) (view (run evs ?w) i s')" by blast
  from lmoves_quiet [OF mv] assms(2,3) quiet_timers [OF assms(1,2)]
  have e: "effects s' = [Report ''Getting microphone ready...'', GetUserMedia]" by simp
  from lreach_node [OF reach_view [OF assms(1)]] assms(2)
  have n: "\<not> node s" "delivered s = []" by (simp_all add: view_def)
  from lmoves_muted [OF mv] assms(3) n have "delivered s' = []" by simp
  with s' e show "\<exists>s'. sessions (run evs ?w) i = Some s' \<and>
      effects s' = [Report ''Getting microphone ready...'', GetUserMedia] \<and> delivered s' = []"
    by simp
  from returned_stays [OF winv_step [OF reachable_winv] step_mic_cancelled [OF assms],
      where evs = evs and trs1 = trs]
  show "\<exists>s'. sessions (run (MicResolved i trs # evs) ?w) i = Some s' \<and>
      pc s' = Returned \<and> microphoneDevice s' = trs"
    by (simp del: step.simps)
qed

text \<open>
  C1. The claim fails on the code when the token is cancelled while the session waits for
  the microphone. The callback returns at its first check, before the teardown listener
  is registered. The microphone stream has been acquired (here with the single track
  \<open>0\<close>); whatever happens afterwards, the session's effects stay the progress report
  and the microphone request, so the track is never stopped.
\<close>

theorem early_cancel_never_stops_tracks:
  "\<exists>s. sessions (run ([Transcribe 0, Cancel 0, MicResolved 0 [0]] @ evs) init) 0 = Some s \<and>
     pc s = Returned \<and> microphoneDevice s = [0] \<and>
     effects s = [Report ''Getting microphone ready...'', GetUserMedia] \<and>
     StopTrack 0 \<notin> set (effects s)"
proof -
  let ?pre = "[Transcribe 0, Cancel 0]"
  let ?s = "the (sessions (run ?pre init) 0)"
  have a: "sessions (run ?pre init) 0 = Some ?s" "pc ?s = AwaitMic"
    "cancelled (run ?pre init) (token ?s)"
    by (simp_all add: model_defs)
  from early_cancellation(2) [OF a, where trs = "[0]" and evs = evs] obtain s where
    s: "sessions (run (MicResolved 0 [0] # evs) (run ?pre init)) 0 = Some s"
      "pc s = Returned" "microphoneDevice s = [0]" by blast
  from early_cancellation(1) [OF a, where evs = "MicResolved 0 [0] # evs"] s(1)
  have "effects s = [Report ''Getting microphone ready...'', GetUserMedia]" by simp
  with s show ?thesis by (simp del: step.simps)
qed

text \<open>
  C2, as the code has it. A token that is already cancelled when \<^verbatim>\<open>transcribe\<close> is called
  does not keep the microphone from being requested: \<^verbatim>\<open>getUserMedia\<close> is called before
  the first check of the flag.
\<close>

theorem microphone_requested_when_already_cancelled:
  "cancelled (run [Cancel 0] init) 0 \<and>
   GetUserMedia \<in> set (effects (the (sessions (snd (transcribe 0 (run [Cancel 0] init))) 0)))"
  by (simp add: model_defs)

text \<open>
  C2, amended. When \<^verbatim>\<open>transcribe\<close> is called in a reachable state with a token that is
  already cancelled, the microphone is requested, and whatever happens afterwards the
  subscriber of the returned event receives no fragment and the session creates no audio
  context, no source node, no worklet node and no side-channel connection. Once the
  microphone request resolves, the callback has returned (its promise is fulfilled, not
  rejected), and stays so.
\<close>

theorem cancelled_before_transcribe:
  assumes "cancelled (run pre init) t"
    and "transcribe t (run pre init) = (i, w1)"
  shows "(\<exists>s. sessions (run evs w1) i = Some s \<and> delivered s = [] \<and>
       GetUserMedia \<in> set (effects s) \<and> NewAudioContext \<notin> set (effects s) \<and>
       CreateMediaStreamSource \<notin> set (effects s) \<and> NewWorkletNode \<notin> set (effects s) \<and>
       CreateRawConnection \<notin> set (effects s)) \<and>
     (\<exists>s. sessions (run (MicResolved i trs # evs) w1) i = Some s \<and> pc s = Returned \<and>
       task_promise s = Fulfilled)"
proof -
  let ?pre = "pre @ [Transcribe t]"
  from assms(2) have i: "i = next_sid (run pre init)" and w1: "w1 = run ?pre init"
    by (auto simp: run_snoc dest: arg_cong [where f = fst] arg_cong [where f = snd])
  let ?b = "born None t (next_obj (run pre init))"
  have a: "sessions (run ?pre init) i = Some ?b" "pc ?b = AwaitMic"
    "cancelled (run ?pre init) (token ?b)"
    using assms(1) by (simp_all add: run_snoc i transcribe_call_sessions)
  from early_cancellation(1) [OF a, where evs = evs]
    early_cancellation(2) [OF a, where evs = evs and trs = trs] show ?thesis
    unfolding w1 by (auto simp: task_promise_def simp del: step.simps run_Cons)
qed

theorem cancelled_before_transcribe_witness:
  "cancelled (run [Cancel 0] init) 0 \<and>
   delivered (the (sessions (run [ModuleResolved 0, Tick]
     (snd (transcribe 0 (run [Cancel 0] init)))) 0)) = [] \<and>
   pc (the (sessions (run [MicResolved 0 [0], ModuleResolved 0, Tick]
     (snd (transcribe 0 (run [Cancel 0] init)))) 0)) = Returned"
  using cancelled_before_transcribe [where pre = "[Cancel 0]" and t = 0 and i = 0
      and ?w1.0 = "snd (transcribe 0 (run [Cancel 0] init))"
      and evs = "[ModuleResolved 0, Tick]" and trs = "[0]"]
  by (simp add: model_defs)

subsection \<open>Where the flag is checked\<close>

text \<open>
  C3, as the code has it. The token is cancelled while \<^verbatim>\<open>start\<close> waits for the
  side-channel connection. When the connection opens, \<^verbatim>\<open>start\<close> goes on without reading
  the flag: the start command is posted to the processing unit, after the teardown, and
  the callback is not stopped but waits for \<^verbatim>\<open>start\<close> to return.
\<close>

theorem start_posted_after_cancellation:
  "cancelled (run [Transcribe 0, MicResolved 0 [0], ModuleResolved 0, Cancel 0] init) 0 \<and>
   pc (the (sessions (run [Transcribe 0, MicResolved 0 [0], ModuleResolved 0, Cancel 0] init) 0))
     = AwaitConn \<and>
   effects (the (sessions
     (run [Transcribe 0, MicResolved 0 [0], ModuleResolved 0, Cancel 0, ConnResolved 0] init) 0))
     = [Report ''Getting microphone ready...'', GetUserMedia, NewAudioContext,
        CreateMediaStreamSource, AddModule, NewWorkletNode, CreateRawConnection,
        StopTrack 0, DisconnectSource, CloseContext, CompleteRecordingDone, PostStart] \<and>
   pc (the (sessions
     (run [Transcribe 0, MicResolved 0 [0], ModuleResolved 0, Cancel 0, ConnResolved 0] init) 0))
     = AwaitStart"
  by (simp add: model_defs)

text \<open>
  C3, amended. In any state in which the token of a session is cancelled: when the
  microphone request resolves, when the module load resolves, and when \<^verbatim>\<open>start\<close>
  resolves, the callback reads the flag and returns; the state changes in nothing else
  (but that the session holds the stream it was handed), so no further setup step is
  performed and no listener is registered. When the side-channel connection opens inside
  \<^verbatim>\<open>start\<close>, the flag is not read: the stop listener is registered with the token,
  which, being cancelled, defers it to a timer; the start command is posted; and the
  callback goes on to wait for \<^verbatim>\<open>start\<close>. A promise the callback does not wait for
  changes nothing.
\<close>

theorem cancellation_checks:
  assumes "sessions w i = Some s"
    and "cancelled w (token s)"
  shows "step (MicResolved i trs) w =
      (if pc s = AwaitMic
       then w\<lparr>sessions := (sessions w)(i \<mapsto>
                 s\<lparr>microphoneDevice := trs, microphoneStream := Some (next_obj w),
                   pc := Returned\<rparr>),
               next_obj := Suc (next_obj w)\<rparr>
       else w) \<and>
    step (ModuleResolved i) w =
      (if pc s = AwaitModule then w\<lparr>sessions := (sessions w)(i \<mapsto> s\<lparr>pc := Returned\<rparr>)\<rparr> else w) \<and>
    step (StartResolved i) w =
      (if pc s = AwaitStart then w\<lparr>sessions := (sessions w)(i \<mapsto> s\<lparr>pc := Returned\<rparr>)\<rparr> else w) \<and>
    step (ConnResolved i) w =
      (if pc s = AwaitConn
       then w\<lparr>sessions := (sessions w)(i \<mapsto>
                 s\<lparr>effects := effects s @ [PostStart],
                   sharedProcessConnection := Some (next_obj w), pc := AwaitStart\<rparr>),
               next_obj := Suc (next_obj w),
               timers := timers w @ [(i, StopWorklet)]\<rparr>
       else w)"
  using assms
  by (simp add: resume_def getUserMedia_resolved_def addModule_resolved_def
      start_resolved_def createRawConnection_resolved_def log_def map_upd_triv
      onCancellationRequested_def cancelled_def)

theorem cancellation_checks_witness:
  "cancelled (run [Transcribe 0, Cancel 0] init) 0 \<and>
   pc (the (sessions (run [Transcribe 0, Cancel 0] init) 0)) = AwaitMic \<and>
   pc (the (sessions (step (MicResolved 0 [0]) (run [Transcribe 0, Cancel 0] init)) 0)) = Returned \<and>
   cancelled (run [Transcribe 0, MicResolved 0 [0], Cancel 0] init) 0 \<and>
   pc (the (sessions (run [Transcribe 0, MicResolved 0 [0], Cancel 0] init) 0)) = AwaitModule \<and>
   pc (the (sessions (step (ModuleResolved 0)
     (run [Transcribe 0, MicResolved 0 [0], Cancel 0] init)) 0)) = Returned \<and>
   effects (the (sessions (step (ModuleResolved 0)
     (run [Transcribe 0, MicResolved 0 [0], Cancel 0] init)) 0)) =
   effects (the (sessions (run [Transcribe 0, MicResolved 0 [0], Cancel 0] init) 0)) \<and>
   cancelled (run [Transcribe 0, MicResolved 0 [0], ModuleResolved 0, Cancel 0] init) 0 \<and>
   pc (the (sessions
     (run [Transcribe 0, MicResolved 0 [0], ModuleResolved 0, Cancel 0] init) 0)) = AwaitConn \<and>
   timers (run [Transcribe 0, MicResolved 0 [0], ModuleResolved 0, Cancel 0] init) = [] \<and>
   timers (step (ConnResolved 0)
     (run [Transcribe 0, MicResolved 0 [0], ModuleResolved 0, Cancel 0] init))
     = [(0, StopWorklet)] \<and>
   pc (the (sessions (step (ConnResolved 0)
     (run [Transcribe 0, MicResolved 0 [0], ModuleResolved 0, Cancel 0] init)) 0)) = AwaitStart \<and>
   cancelled (run [Transcribe 0, MicResolved 0 [0], ModuleResolved 0, ConnResolved 0, Cancel 0] init) 0 \<and>
   pc (the (sessions
     (run [Transcribe 0, MicResolved 0 [0], ModuleResolved 0, ConnResolved 0, Cancel 0] init) 0))
     = AwaitStart \<and>
   pc (the (sessions (step (StartResolved 0)
     (run [Transcribe 0, MicResolved 0 [0], ModuleResolved 0, ConnResolved 0, Cancel 0] init)) 0))
     = Returned \<and>
   ConnectSource \<notin> set (effects (the (sessions (step (StartResolved 0)
     (run [Transcribe 0, MicResolved 0 [0], ModuleResolved 0, ConnResolved 0, Cancel 0] init)) 0)))"
  using
    cancellation_checks [of "run [Transcribe 0, Cancel 0] init" 0
      "the (sessions (run [Transcribe 0, Cancel 0] init) 0)" "[0]"]
    cancellation_checks [of "run [Transcribe 0, MicResolved 0 [0], Cancel 0] init" 0
      "the (sessions (run [Transcribe 0, MicResolved 0 [0], Cancel 0] init) 0)" "[]"]
    cancellation_checks [of
      "run [Transcribe 0, MicResolved 0 [0], ModuleResolved 0, Cancel 0] init" 0
      "the (sessions (run [Transcribe 0, MicResolved 0 [0], ModuleResolved 0, Cancel 0] init) 0)"
      "[]"]
    cancellation_checks [of
      "run [Transcribe 0, MicResolved 0 [0], ModuleResolved 0, ConnResolved 0, Cancel 0] init" 0
      "the (sessions
         (run [Transcribe 0, MicResolved 0 [0], ModuleResolved 0, ConnResolved 0, Cancel 0] init) 0)"
      "[]"]
  by (simp add: model_defs)

subsection \<open>The teardown\<close>

lemma lreach_not_torn:
  "lreach v \<Longrightarrow> \<not> fst (snd v) \<Longrightarrow>
   CloseContext \<notin> set (effects (fst v)) \<and> DisconnectSource \<notin> set (effects (fst v))"
proof (induction rule: lreach.induct)
  case (start x t n c)
  show ?case by (cases x) simp_all
next
  case (move v v')
  note flags = lreach_flags [OF move.hyps(1)]
  from move.hyps(2) show ?case
  proof (cases rule: lmove.cases)
    case (seg e c n s s' ls n' L T)
    from seg(3) show ?thesis
      by (cases rule: segment_cases) (use move.IH move.prems seg(1,2) in auto)
  next
    case (cancel s L T)
    with move.prems show ?thesis by simp
  next
    case (timer s c L l T)
    with move.prems flags show ?thesis by simp
  qed
qed

lemma lmove_torn:
  assumes "lmove v v'" "fst (snd v)" "Teardown \<notin> set (snd (snd (snd v)))"
  shows "fst (snd v') \<and> Teardown \<notin> set (snd (snd (snd v'))) \<and>
    count_list (effects (fst v')) CloseContext = count_list (effects (fst v)) CloseContext \<and>
    count_list (effects (fst v')) DisconnectSource = count_list (effects (fst v)) DisconnectSource"
  using assms(1)
proof (cases rule: lmove.cases)
  case (seg e c n s s' ls n' L T)
  from seg(3) show ?thesis
    by (cases rule: segment_cases) (use assms(2,3) seg(1,2) in auto)
next
  case (cancel s L T)
  with assms(2) show ?thesis by simp
next
  case (timer s c L l T)
  with assms(2,3) show ?thesis by (cases l) auto
qed

lemma lmoves_torn:
  assumes "lmove\<^sup>*\<^sup>* v v'" "fst (snd v)" "Teardown \<notin> set (snd (snd (snd v)))"
  shows "fst (snd v') \<and> Teardown \<notin> set (snd (snd (snd v'))) \<and>
    count_list (effects (fst v')) CloseContext = count_list (effects (fst v)) CloseContext \<and>
    count_list (effects (fst v')) DisconnectSource = count_list (effects (fst v)) DisconnectSource"
  using assms
proof (induction rule: rtranclp_induct)
  case base
  then show ?case by simp
next
  case (step y z)
  from step.IH [OF step.prems] lmove_torn [OF step.hyps(2)] show ?case by simp
qed

lemma count_list_StopTrack [simp]:
  "count_list (map StopTrack trs) CloseContext = 0"
  "count_list (map StopTrack trs) DisconnectSource = 0"
  by (induction trs) auto

text \<open>
  C7, as the code has it. The token is cancelled while \<^verbatim>\<open>start\<close> waits for the
  side-channel connection: the worklet node exists, the teardown runs (tracks, source,
  context, \<^verbatim>\<open>recordingDone\<close>), and the processing unit is not signalled to stop; the
  listener that would do so is not registered yet.
\<close>

theorem teardown_without_stop_signal:
  "effects (the (sessions
     (run [Transcribe 0, MicResolved 0 [0], ModuleResolved 0, Cancel 0] init) 0))
     = [Report ''Getting microphone ready...'', GetUserMedia, NewAudioContext,
        CreateMediaStreamSource, AddModule, NewWorkletNode, CreateRawConnection,
        StopTrack 0, DisconnectSource, CloseContext, CompleteRecordingDone] \<and>
   PostStop \<notin> set (effects (the (sessions
     (run [Transcribe 0, MicResolved 0 [0], ModuleResolved 0, Cancel 0] init) 0)))"
  by (simp add: model_defs)

text \<open>
  C7, amended. In a reachable state in which the token of a session is not cancelled and
  the session has created its audio context, cancelling the token disposes the emitter
  and then extends the session's effects by exactly: the stop of every track of the
  microphone stream in order, the disconnection of the source, the closing of the
  context, the completion of \<^verbatim>\<open>recordingDone\<close>, and in the same pass, after these,
  the stop command to the processing unit and the disconnection of the worklet node if
  and only if \<^verbatim>\<open>start\<close> has already posted the start command. Whatever happens
  afterwards (further cancellation requests included), the source is disconnected and
  the context is closed exactly once.
\<close>

theorem teardown_on_cancellation:
  assumes "sessions (run pre init) i = Some s"
    and "\<not> cancelled (run pre init) (token s)"
    and "NewAudioContext \<in> set (effects s)"
  shows "sessions (step (Cancel (token s)) (run pre init)) i =
      Some (s\<lparr>disposed := True,
              effects := effects s @ map StopTrack (microphoneDevice s) @
                [DisconnectSource, CloseContext, CompleteRecordingDone] @
                (if PostStart \<in> set (effects s) then [PostStop, DisconnectNode] else []),
              recordingDone := True\<rparr>) \<and>
    (\<exists>s'. sessions (run evs (step (Cancel (token s)) (run pre init))) i = Some s' \<and>
       count_list (effects s') DisconnectSource = 1 \<and> count_list (effects s') CloseContext = 1)"
proof -
  let ?w = "run pre init"
  let ?w1 = "step (Cancel (token s)) ?w"
  let ?s1 = "s\<lparr>disposed := True,
              effects := effects s @ map StopTrack (microphoneDevice s) @
                [DisconnectSource, CloseContext, CompleteRecordingDone] @
                (if PostStart \<in> set (effects s) then [PostStop, DisconnectNode] else []),
              recordingDone := True\<rparr>"
  note r = reach_view [OF assms(1)]
  from lreach_progress [OF r] assms(2)
  have L: "mine i (listeners (tokens ?w (token s))) = registered s" by (simp add: view_def)
  have s1: "sessions ?w1 i = Some ?s1"
    using assms by (simp add: cancel_sessions L registered_def teardown_effects_def)
  from lreach_not_torn [OF r] assms(2)
  have z: "count_list (effects s) CloseContext = 0" "count_list (effects s) DisconnectSource = 0"
    by simp_all
  have one: "count_list (effects ?s1) DisconnectSource = 1" "count_list (effects ?s1) CloseContext = 1"
    using z by simp_all
  have inv1: "winv ?w1" by (rule winv_step [OF reachable_winv])
  from run_view [OF inv1 s1, of evs] obtain s' where
    s': "sessions (run evs ?w1) i = Some s'" and
    mv: "lmove\<^sup>*\<^sup>* (view ?w1 i ?s1) (view (run evs ?w1) i s')" by blast
  have "lreach (view ?w1 i ?s1)"
    using reach_view [of "pre @ [Cancel (token s)]" i ?s1] s1 by (simp add: run_snoc)
  from lreach_flags [OF this] have nt: "Teardown \<notin> set (mine i (timers ?w1))"
    by (simp add: view_def)
  have c1: "cancelled ?w1 (token ?s1)" by simp
  from lmoves_torn [OF mv] c1 nt one
  have "count_list (effects s') DisconnectSource = 1 \<and> count_list (effects s') CloseContext = 1"
    by simp
  with s1 s' show ?thesis by blast
qed

theorem teardown_on_cancellation_witness:
  "sessions (run [Transcribe 0, MicResolved 0 [0, 1], ModuleResolved 0, ConnResolved 0,
       StartResolved 0] init) 0 \<noteq> None \<and>
   \<not> cancelled (run [Transcribe 0, MicResolved 0 [0, 1], ModuleResolved 0, ConnResolved 0,
       StartResolved 0] init) 0 \<and>
   effects (the (sessions (step (Cancel 0)
     (run [Transcribe 0, MicResolved 0 [0, 1], ModuleResolved 0, ConnResolved 0,
       StartResolved 0] init)) 0)) =
     [Report ''Getting microphone ready...'', GetUserMedia, NewAudioContext,
      CreateMediaStreamSource, AddModule, NewWorkletNode, CreateRawConnection, PostStart,
      ConnectSource, Report ''Recording from microphone...'',
      StopTrack 0, StopTrack 1, DisconnectSource, CloseContext, CompleteRecordingDone,
      PostStop, DisconnectNode] \<and>
   count_list (effects (the (sessions (run [Cancel 0, Tick]
     (step (Cancel 0) (run [Transcribe 0, MicResolved 0 [0, 1], ModuleResolved 0, ConnResolved 0,
       StartResolved 0] init))) 0))) CloseContext = 1"
  using teardown_on_cancellation [of
      "[Transcribe 0, MicResolved 0 [0, 1], ModuleResolved 0, ConnResolved 0, StartResolved 0]" 0
      "the (sessions (run [Transcribe 0, MicResolved 0 [0, 1], ModuleResolved 0, ConnResolved 0,
        StartResolved 0] init) 0)" "[Cancel 0, Tick]"]
  by (simp add: model_defs)

subsection \<open>Two sessions\<close>





















subsection \<open>The caller of transcribe\<close>

lemma resume_rejected:
  "resume i (rejected at r) w =
     (case sessions w i of
        None \<Rightarrow> w
      | Some s \<Rightarrow>
          if pc s = at then w\<lparr>sessions := (sessions w)(i \<mapsto> s\<lparr>pc := Rejected r\<rparr>)\<rparr> else w)"
  by (simp add: resume_def rejected_def map_upd_triv split: option.splits)

text \<open>
  C10. In every state, the first included, for every token, cancelled or not, and
  whatever the synchronous part of the callback throws, \<^verbatim>\<open>transcribe\<close> throws nothing to
  its caller and returns the event of a new session: the callback is an async function,
  so what its body throws rejects the promise that the progress wrapper holds, which is
  pending otherwise; nothing has been delivered on the event and the emitter is not
  disposed. When later an awaited promise of a session rejects, the state changes in
  nothing but that the session's callback is rejected, or not at all: the emitter, what
  its subscriber has received and everything else are as before.
\<close>

theorem transcribe_returns_event:
  assumes "e = MicRejected i r \<or> e = ModuleRejected i r \<or> e = ConnRejected i r"
  shows "fst (transcribe_call x t w) = Inr (next_sid w) \<and>
    (\<exists>s0. sessions (snd (transcribe_call x t w)) (next_sid w) = Some s0 \<and>
       task_promise s0 = (case x of None \<Rightarrow> Pending | Some a \<Rightarrow> Failed a) \<and>
       delivered s0 = [] \<and> \<not> disposed s0) \<and>
    (step e w' = w' \<or>
     (\<exists>s. sessions w' i = Some s \<and>
        step e w' = w'\<lparr>sessions := (sessions w')(i \<mapsto> s\<lparr>pc := Rejected r\<rparr>)\<rparr>))"
proof -
  have "sessions (snd (transcribe_call x t w)) (next_sid w) = Some (born x t (next_obj w))"
    by (simp add: transcribe_call_sessions)
  moreover have "task_promise (born x t (next_obj w)) =
      (case x of None \<Rightarrow> Pending | Some a \<Rightarrow> Failed a)"
    by (cases x) (simp_all add: task_promise_def)
  moreover have "step e w' = w' \<or>
     (\<exists>s. sessions w' i = Some s \<and>
        step e w' = w'\<lparr>sessions := (sessions w')(i \<mapsto> s\<lparr>pc := Rejected r\<rparr>)\<rparr>)"
    using assms by (auto simp: resume_rejected split: option.splits)
  ultimately show ?thesis by simp
qed

theorem transcribe_returns_event_witness:
  "fst (transcribe_call None 0 init) = Inr 0 \<and>
   fst (transcribe_call (Some (OtherError ''TypeError'')) 0 init) = Inr 0 \<and>
   task_promise (the (sessions (snd (transcribe_call (Some (OtherError ''TypeError'')) 0 init)) 0))
     = Failed (OtherError ''TypeError'') \<and>
   task_promise (the (sessions (snd (transcribe_call None 0 init)) 0)) = Pending \<and>
   delivered (the (sessions (step (MicRejected 0 NotFoundError)
     (snd (transcribe_call None 0 init))) 0)) = [] \<and>
   pc (the (sessions (step (MicRejected 0 NotFoundError)
     (snd (transcribe_call None 0 init))) 0)) = Rejected NotFoundError"
  using
    transcribe_returns_event [of "MicRejected 0 NotFoundError" 0 NotFoundError None 0 init
      "snd (transcribe_call None 0 init)"]
    transcribe_returns_event [of "MicRejected 0 NotFoundError" 0 NotFoundError
      "Some (OtherError ''TypeError'')" 0 init "snd (transcribe_call None 0 init)"]
  by (simp add: model_defs)

end
